theory Spec2Isabelle
  imports Complex_Main "HOL-Library.Log_Nat"
begin

section \<open>The in-memory cache layer of \<^verbatim>\<open>apps/web/src/lib/cache.ts\<close>\<close>

text \<open>
  The development embeds \<^verbatim>\<open>SmartCache\<close>, \<^verbatim>\<open>CacheManager\<close> and
  \<^verbatim>\<open>CachedQuery\<close>. Modelling decisions:
  \<^item> A JavaScript \<^verbatim>\<open>Map\<close> iterates in insertion order, and the eviction scans
    depend on that order, so the backing store is an association list: \<^verbatim>\<open>Map.set\<close>
    replaces a present key in place and appends a new one, \<^verbatim>\<open>Map.delete\<close> removes
    the key. The keys of a \<^verbatim>\<open>Map\<close> are distinct; lemmas that count entries assume
    \<open>distinct (map fst m)\<close>, which every operation preserves.
  \<^item> \<^verbatim>\<open>Date.now()\<close> is a parameter \<open>now\<close> of each operation that reads the clock
    (integer milliseconds); the reads inside one call are the same instant.
  \<^item> Clock readings are integers and counters are naturals (a double counts exactly up to
    \<open>2 ^ 53\<close>, which no run of calls reaches). A TTL, \<^verbatim>\<open>maxSize\<close> and the
    other numeric settings are what the caller passes: any double, \<^verbatim>\<open>Infinity\<close>,
    \<^verbatim>\<open>NaN\<close>, or \<^verbatim>\<open>undefined\<close> where the value is left out. They are values of
    \<open>jsnum\<close>, compared and added as JavaScript does, sums and differences rounded to the
    nearest double.
  \<^item> The payload type \<^verbatim>\<open>T\<close> may contain \<^verbatim>\<open>null\<close> (the four domain caches are
    \<^verbatim>\<open>SmartCache<any>\<close>), and \<^verbatim>\<open>get\<close> returns \<^verbatim>\<open>T | null\<close>: both are
    \<open>'v nullable\<close>.
  \<^item> \<^verbatim>\<open>hitRate\<close> is the exact quotient that the source's double approximates.
\<close>

subsection \<open>JavaScript \<^verbatim>\<open>Map\<close> as an insertion-ordered association list\<close>

fun Map_set :: "'k \<Rightarrow> 'a \<Rightarrow> ('k \<times> 'a) list \<Rightarrow> ('k \<times> 'a) list" where
  "Map_set k v [] = [(k, v)]"
| "Map_set k v (p # ps) = (if fst p = k then (k, v) # ps else p # Map_set k v ps)"

definition Map_delete :: "'k \<Rightarrow> ('k \<times> 'a) list \<Rightarrow> ('k \<times> 'a) list" where
  "Map_delete k m = filter (\<lambda>p. fst p \<noteq> k) m"

definition Map_has :: "('k \<times> 'a) list \<Rightarrow> 'k \<Rightarrow> bool" where
  "Map_has m k = (map_of m k \<noteq> None)"

subsection \<open>JavaScript numbers\<close>

text \<open>
  A \<open>jsnum\<close> is a number, or \<^verbatim>\<open>undefined\<close> where a number is expected. A finite
  double is the rational it denotes (\<^verbatim>\<open>-0\<close> is \<open>Fin 0\<close>: the code cannot tell them
  apart). \<open>num\<close> embeds a clock reading or a count, which are doubles already.
\<close>

datatype jsnum = Fin rat | PosInf | NegInf | NaN | Undefined

definition num :: "int \<Rightarrow> jsnum" where
  "num i = Fin (of_int i)"

text \<open>In arithmetic and comparisons \<^verbatim>\<open>undefined\<close> converts to \<^verbatim>\<open>NaN\<close>.\<close>

definition isNaN :: "jsnum \<Rightarrow> bool" where
  "isNaN x = (x = NaN \<or> x = Undefined)"

text \<open>Truthiness, as \<^verbatim>\<open>||\<close> tests it: \<^verbatim>\<open>undefined\<close>, \<^verbatim>\<open>NaN\<close> and 0 are falsy.\<close>

definition truthy :: "jsnum \<Rightarrow> bool" where
  "truthy x = (\<not> isNaN x \<and> x \<noteq> Fin 0)"

text \<open>\<^verbatim>\<open>a < b\<close>: false as soon as one side is \<^verbatim>\<open>NaN\<close>; \<^verbatim>\<open>a > b\<close> is \<open>js_less b a\<close>.\<close>

fun js_less :: "jsnum \<Rightarrow> jsnum \<Rightarrow> bool" where
  "js_less (Fin a) (Fin b) = (a < b)"
| "js_less (Fin a) PosInf = True"
| "js_less NegInf (Fin b) = True"
| "js_less NegInf PosInf = True"
| "js_less _ _ = False"

text \<open>\<^verbatim>\<open>a >= b\<close>: false as soon as one side is \<^verbatim>\<open>NaN\<close>, otherwise not \<^verbatim>\<open>a < b\<close>.\<close>

definition js_ge :: "jsnum \<Rightarrow> jsnum \<Rightarrow> bool" where
  "js_ge a b = (\<not> isNaN a \<and> \<not> isNaN b \<and> \<not> js_less a b)"

text \<open>
  Rounding of a rational to the nearest double (binary64, ties to the even significand).
  \<open>floor_log2 x\<close> is the exponent \<open>k\<close> of a positive \<open>x\<close>, with \<open>2 ^ k \<le> x < 2 ^ (k + 1)\<close>;
  the doubles near \<open>x\<close> are the multiples of \<open>2 ^ (k - 52)\<close>, and of \<open>2 ^ (- 1074)\<close> for
  the smallest \<open>x\<close>; a result of magnitude \<open>2 ^ 1024\<close> or more is infinite.
\<close>

definition floor_log2 :: "rat \<Rightarrow> int" where
  "floor_log2 x = (if 1 \<le> x then bitlen \<lfloor>x\<rfloor> - 1 else - bitlen (\<lceil>1 / x\<rceil> - 1))"

definition round_half_even :: "rat \<Rightarrow> int" where
  "round_half_even x =
     (let f = \<lfloor>x\<rfloor>; d = x - of_int f
      in if d < 1 / 2 then f else if 1 / 2 < d then f + 1 else if even f then f else f + 1)"

definition fl :: "rat \<Rightarrow> jsnum" where
  "fl x =
     (if x = 0 then Fin 0
      else
        let e = max (floor_log2 \<bar>x\<bar> - 52) (- 1074);
            y = of_int (round_half_even (x / 2 powi e)) * 2 powi e
        in if 2 ^ 1024 \<le> \<bar>y\<bar> then (if 0 < x then PosInf else NegInf) else Fin y)"

fun js_add :: "jsnum \<Rightarrow> jsnum \<Rightarrow> jsnum" where
  "js_add (Fin a) (Fin b) = fl (a + b)"
| "js_add (Fin a) PosInf = PosInf"
| "js_add (Fin a) NegInf = NegInf"
| "js_add PosInf (Fin b) = PosInf"
| "js_add PosInf PosInf = PosInf"
| "js_add NegInf (Fin b) = NegInf"
| "js_add NegInf NegInf = NegInf"
| "js_add _ _ = NaN"

fun js_sub :: "jsnum \<Rightarrow> jsnum \<Rightarrow> jsnum" where
  "js_sub (Fin a) (Fin b) = fl (a - b)"
| "js_sub (Fin a) PosInf = NegInf"
| "js_sub (Fin a) NegInf = PosInf"
| "js_sub PosInf (Fin b) = PosInf"
| "js_sub PosInf NegInf = PosInf"
| "js_sub NegInf (Fin b) = NegInf"
| "js_sub NegInf PosInf = NegInf"
| "js_sub _ _ = NaN"

subsection \<open>Data model\<close>

datatype 'v nullable = Null | Value 'v

record 'v CacheEntry =
  data :: "'v nullable"
  timestamp :: int
  ttl :: jsnum
  accessCount :: nat
  lastAccessed :: int

record CacheStats =
  hits :: nat
  misses :: nat
  sets :: nat
  deletes :: nat
  evictions :: nat
  totalSize :: nat
  hitRate :: rat

text \<open>
  The type of \<^verbatim>\<open>evictionPolicy\<close> is \<^verbatim>\<open>'lru' | 'lfu' | 'ttl'\<close>; \<open>Unrecognized\<close>
  stands for any other run-time value, \<^verbatim>\<open>undefined\<close> among them, which reaches the
  \<^verbatim>\<open>default\<close> branch of \<^verbatim>\<open>evictEntry\<close>.
\<close>

datatype policy = LRU | LFU | TTL | Unrecognized

record CacheConfig =
  maxSize :: jsnum
  defaultTtl :: jsnum
  cleanupInterval :: jsnum
  evictionPolicy :: policy

record 'v SmartCache =
  cache :: "(string \<times> 'v CacheEntry) list"
  stats :: CacheStats
  config :: CacheConfig
  cleanupTimer :: bool

definition new_SmartCache :: "CacheConfig \<Rightarrow> 'v SmartCache" where
  "new_SmartCache cfg =
     \<lparr>cache = [],
      stats = \<lparr>hits = 0, misses = 0, sets = 0, deletes = 0, evictions = 0,
               totalSize = 0, hitRate = 0\<rparr>,
      config = cfg,
      cleanupTimer = True\<rparr>"

subsection \<open>\<^verbatim>\<open>SmartCache\<close>\<close>

text \<open>\<^verbatim>\<open>Date.now() - entry.timestamp > entry.ttl\<close>.\<close>

definition isExpired :: "int \<Rightarrow> 'v CacheEntry \<Rightarrow> bool" where
  "isExpired now entry = js_less (ttl entry) (js_sub (num now) (num (timestamp entry)))"

definition updateHitRate :: "CacheStats \<Rightarrow> CacheStats" where
  "updateHitRate st =
     (let total = hits st + misses st
      in st\<lparr>hitRate := (if total > 0 then (of_nat (hits st) / of_nat total) * 100 else 0)\<rparr>)"

definition get :: "'v SmartCache \<Rightarrow> string \<Rightarrow> int \<Rightarrow> 'v nullable \<times> 'v SmartCache" where
  "get c key now =
     (case map_of (cache c) key of
        None \<Rightarrow>
          (Null, c\<lparr>stats := updateHitRate ((stats c)\<lparr>misses := misses (stats c) + 1\<rparr>)\<rparr>)
      | Some entry \<Rightarrow>
          if isExpired now entry then
            (Null, c\<lparr>cache := Map_delete key (cache c),
                     stats := updateHitRate ((stats c)\<lparr>misses := misses (stats c) + 1,
                                                      evictions := evictions (stats c) + 1\<rparr>)\<rparr>)
          else
            (data entry,
             c\<lparr>cache := Map_set key (entry\<lparr>accessCount := accessCount entry + 1,
                                           lastAccessed := now\<rparr>) (cache c),
               stats := updateHitRate ((stats c)\<lparr>hits := hits (stats c) + 1\<rparr>)\<rparr>))"

text \<open>
  The three scans of \<^verbatim>\<open>findLeastRecentlyUsed\<close>, \<^verbatim>\<open>findLeastFrequentlyUsed\<close> and
  \<^verbatim>\<open>findNearestExpiry\<close> are the same loop over \<^verbatim>\<open>this.cache.entries()\<close> with a
  different measure; \<open>scan\<close> is that loop, its state the pair of the best key and the
  best measure so far, which start as the empty string and \<^verbatim>\<open>Infinity\<close>. An entry whose
  measure is not below the best so far (\<^verbatim>\<open>Infinity\<close> and \<^verbatim>\<open>NaN\<close> never are) is passed
  over.
\<close>

fun scan :: "('e \<Rightarrow> jsnum) \<Rightarrow> (string \<times> 'e) list \<Rightarrow> string \<times> jsnum \<Rightarrow> string \<times> jsnum" where
  "scan f [] best = best"
| "scan f ((key, entry) # rest) (bestKey, bestVal) =
     (if js_less (f entry) bestVal then scan f rest (key, f entry)
      else scan f rest (bestKey, bestVal))"

definition findLeastRecentlyUsed :: "'v SmartCache \<Rightarrow> string" where
  "findLeastRecentlyUsed c = fst (scan (\<lambda>e. num (lastAccessed e)) (cache c) ('''', PosInf))"

definition findLeastFrequentlyUsed :: "'v SmartCache \<Rightarrow> string" where
  "findLeastFrequentlyUsed c =
     fst (scan (\<lambda>e. num (int (accessCount e))) (cache c) ('''', PosInf))"

text \<open>\<^verbatim>\<open>const expiryTime = entry.timestamp + entry.ttl\<close>.\<close>

definition expiryTime :: "'v CacheEntry \<Rightarrow> jsnum" where
  "expiryTime entry = js_add (num (timestamp entry)) (ttl entry)"

definition findNearestExpiry :: "'v SmartCache \<Rightarrow> string" where
  "findNearestExpiry c = fst (scan expiryTime (cache c) ('''', PosInf))"

definition firstKey :: "(string \<times> 'e) list \<Rightarrow> string" where
  "firstKey m = (case m of [] \<Rightarrow> '''' | p # _ \<Rightarrow> fst p)"

definition keyToEvict :: "'v SmartCache \<Rightarrow> string" where
  "keyToEvict c =
     (case evictionPolicy (config c) of
        LRU \<Rightarrow> findLeastRecentlyUsed c
      | LFU \<Rightarrow> findLeastFrequentlyUsed c
      | TTL \<Rightarrow> findNearestExpiry c
      | Unrecognized \<Rightarrow> firstKey (cache c))"

definition evictEntry :: "'v SmartCache \<Rightarrow> 'v SmartCache" where
  "evictEntry c =
     (if length (cache c) = 0 then c
      else
        let m = Map_delete (keyToEvict c) (cache c)
        in c\<lparr>cache := m,
             stats := (stats c)\<lparr>evictions := evictions (stats c) + 1, totalSize := length m\<rparr>\<rparr>)"

text \<open>
  \<^verbatim>\<open>ttl || this.config.defaultTtl\<close>: a TTL that is left out (\<^verbatim>\<open>undefined\<close>), \<^verbatim>\<open>NaN\<close> or
  0 gives the default, whatever the default is.
\<close>

definition entryTtl :: "'v SmartCache \<Rightarrow> jsnum \<Rightarrow> jsnum" where
  "entryTtl c t = (if truthy t then t else defaultTtl (config c))"

definition set_c :: "'v SmartCache \<Rightarrow> string \<Rightarrow> 'v nullable \<Rightarrow> jsnum \<Rightarrow> int \<Rightarrow> 'v SmartCache" where
  "set_c c key val t now =
     (let c1 = (if js_ge (num (int (length (cache c)))) (maxSize (config c)) \<and>
                    \<not> Map_has (cache c) key
                then evictEntry c else c);
          entry = \<lparr>data = val, timestamp = now, ttl = entryTtl c t,
                   accessCount = 1, lastAccessed = now\<rparr>;
          m = Map_set key entry (cache c1)
      in c1\<lparr>cache := m,
            stats := (stats c1)\<lparr>sets := sets (stats c1) + 1, totalSize := length m\<rparr>\<rparr>)"

definition delete :: "'v SmartCache \<Rightarrow> string \<Rightarrow> bool \<times> 'v SmartCache" where
  "delete c key =
     (if Map_has (cache c) key then
        (let m = Map_delete key (cache c)
         in (True, c\<lparr>cache := m,
                     stats := (stats c)\<lparr>deletes := deletes (stats c) + 1, totalSize := length m\<rparr>\<rparr>))
      else (False, c))"

definition has :: "'v SmartCache \<Rightarrow> string \<Rightarrow> int \<Rightarrow> bool \<times> 'v SmartCache" where
  "has c key now =
     (case map_of (cache c) key of
        None \<Rightarrow> (False, c)
      | Some entry \<Rightarrow>
          if isExpired now entry then (False, c\<lparr>cache := Map_delete key (cache c)\<rparr>)
          else (True, c))"

definition clear :: "'v SmartCache \<Rightarrow> 'v SmartCache" where
  "clear c = c\<lparr>cache := [], stats := (stats c)\<lparr>totalSize := 0\<rparr>\<rparr>"

definition getStats :: "'v SmartCache \<Rightarrow> CacheStats" where
  "getStats c = stats c"

definition keys :: "'v SmartCache \<Rightarrow> string list" where
  "keys c = map fst (cache c)"

definition size_c :: "'v SmartCache \<Rightarrow> nat" where
  "size_c c = length (cache c)"

definition cleanup :: "'v SmartCache \<Rightarrow> int \<Rightarrow> 'v SmartCache" where
  "cleanup c now =
     (let expiredKeys =
            map fst (filter (\<lambda>p. js_less (ttl (snd p)) (js_sub (num now) (num (timestamp (snd p)))))
                       (cache c));
          c1 = fold (\<lambda>key c'. c'\<lparr>cache := Map_delete key (cache c'),
                                 stats := (stats c')\<lparr>evictions := evictions (stats c') + 1\<rparr>\<rparr>)
                    expiredKeys c
      in c1\<lparr>stats := (stats c1)\<lparr>totalSize := length (cache c1)\<rparr>\<rparr>)"

definition destroy :: "'v SmartCache \<Rightarrow> 'v SmartCache" where
  "destroy c = clear (c\<lparr>cleanupTimer := False\<rparr>)"

subsection \<open>\<^verbatim>\<open>CacheManager\<close>\<close>

text \<open>
  \<^verbatim>\<open>CacheManager.caches\<close> maps a name to a reference to a \<^verbatim>\<open>SmartCache\<close> object.
  Two references are the same instance when they are the same address, so the objects
  live in an explicit store (a list indexed by address) and the registry holds addresses;
  \<^verbatim>\<open>new SmartCache(...)\<close> allocates the next address.
\<close>

record PartialConfig =
  maxSize_opt :: "jsnum option"
  defaultTtl_opt :: "jsnum option"
  cleanupInterval_opt :: "jsnum option"
  evictionPolicy_opt :: "policy option"

record 'v CacheManager =
  caches :: "(string \<times> nat) list"
  store :: "'v SmartCache list"

definition defaultConfig :: CacheConfig where
  "defaultConfig =
     \<lparr>maxSize = num 1000, defaultTtl = num (5 * 60 * 1000), cleanupInterval = num (60 * 1000),
      evictionPolicy = LRU\<rparr>"

definition orElse :: "'a option \<Rightarrow> 'a \<Rightarrow> 'a" where
  "orElse x d = (case x of None \<Rightarrow> d | Some v \<Rightarrow> v)"

text \<open>
  \<^verbatim>\<open>{ ...defaultConfig, ...config }\<close> with an optional partial \<^verbatim>\<open>config\<close>. The spread
  copies every property that \<^verbatim>\<open>config\<close> has, also one whose value is \<^verbatim>\<open>undefined\<close>: a
  field of \<open>PartialConfig\<close> is \<open>None\<close> when the property is absent and \<open>Some v\<close> when it
  is present with value \<open>v\<close> (\<open>Some Undefined\<close>, or \<open>Some Unrecognized\<close> for the policy,
  when that value is \<^verbatim>\<open>undefined\<close>).
\<close>

definition mergeConfig :: "CacheConfig \<Rightarrow> PartialConfig option \<Rightarrow> CacheConfig" where
  "mergeConfig d cfg =
     (case cfg of
        None \<Rightarrow> d
      | Some p \<Rightarrow>
          \<lparr>maxSize = orElse (maxSize_opt p) (maxSize d),
           defaultTtl = orElse (defaultTtl_opt p) (defaultTtl d),
           cleanupInterval = orElse (cleanupInterval_opt p) (cleanupInterval d),
           evictionPolicy = orElse (evictionPolicy_opt p) (evictionPolicy d)\<rparr>)"

text \<open>
  \<^verbatim>\<open>return this.caches.get(name)!\<close>: the result is the registered address, \<open>None\<close>
  standing for the \<^verbatim>\<open>undefined\<close> that the assertion \<^verbatim>\<open>!\<close> rules out.
\<close>

definition getCache :: "'v CacheManager \<Rightarrow> string \<Rightarrow> PartialConfig option \<Rightarrow> nat option \<times> 'v CacheManager" where
  "getCache m name cfg =
     (let m1 = (if \<not> Map_has (caches m) name then
                  m\<lparr>caches := Map_set name (length (store m)) (caches m),
                    store := store m @ [new_SmartCache (mergeConfig defaultConfig cfg)]\<rparr>
                else m)
      in (map_of (caches m1) name, m1))"

definition destroyCache :: "'v CacheManager \<Rightarrow> string \<Rightarrow> bool \<times> 'v CacheManager" where
  "destroyCache m name =
     (case map_of (caches m) name of
        Some r \<Rightarrow>
          (True, m\<lparr>caches := Map_delete name (caches m),
                   store := (if r < length (store m) then (store m)[r := destroy (store m ! r)]
                             else store m)\<rparr>)
      | None \<Rightarrow> (False, m))"

definition clearAll :: "'v CacheManager \<Rightarrow> 'v CacheManager" where
  "clearAll m =
     fold (\<lambda>r m'. m'\<lparr>store := (if r < length (store m') then (store m')[r := clear (store m' ! r)]
                               else store m')\<rparr>)
          (map snd (caches m)) m"

subsection \<open>\<^verbatim>\<open>CachedQuery\<close>\<close>

text \<open>
  The loader \<^verbatim>\<open>queryFn: () => Promise<T>\<close> is an effectful call on the world outside the
  cache: it maps the outside state to a result, a rejection (\<open>Inl\<close>) or a resolved value
  (\<open>Inr\<close>), and a new outside state. \<open>calls\<close> counts its invocations.
  \<^verbatim>\<open>getWithCache\<close> reads the clock once in \<^verbatim>\<open>cache.get\<close> and once, after the
  \<^verbatim>\<open>await\<close>, in \<^verbatim>\<open>cache.set\<close>; no other task touches the cache in between.
\<close>

record 'w Env =
  world :: 'w
  calls :: nat

definition invoke :: "('w \<Rightarrow> ('x + 'v nullable) \<times> 'w) \<Rightarrow> 'w Env \<Rightarrow> ('x + 'v nullable) \<times> 'w Env" where
  "invoke queryFn env =
     (case queryFn (world env) of (r, w) \<Rightarrow> (r, \<lparr>world = w, calls = calls env + 1\<rparr>))"

definition getWithCache ::
  "string \<Rightarrow> 'v SmartCache \<Rightarrow> ('w \<Rightarrow> ('x + 'v nullable) \<times> 'w) \<Rightarrow> jsnum \<Rightarrow> int \<Rightarrow> int \<Rightarrow> 'w Env
    \<Rightarrow> ('x + 'v nullable) \<times> 'v SmartCache \<times> 'w Env" where
  "getWithCache cacheKey c queryFn t now_get now_set env =
     (case get c cacheKey now_get of
        (cached, c1) \<Rightarrow>
          if cached \<noteq> Null then (Inr cached, c1, env)
          else
            (case invoke queryFn env of
               (Inl err, env1) \<Rightarrow> (Inl err, c1, env1)
             | (Inr result, env1) \<Rightarrow> (Inr result, set_c c1 cacheKey result t now_set, env1)))"

text \<open>
  \<^verbatim>\<open>String.prototype.includes\<close>: the pattern occurs in the key as a contiguous run of
  characters, starting at some position.
\<close>

fun startsWith :: "string \<Rightarrow> string \<Rightarrow> bool" where
  "startsWith s [] = True"
| "startsWith [] (p # ps) = False"
| "startsWith (x # xs) (p # ps) = (x = p \<and> startsWith xs ps)"

fun includes_str :: "string \<Rightarrow> string \<Rightarrow> bool" where
  "includes_str [] pattern = startsWith [] pattern"
| "includes_str (x # xs) pattern = (startsWith (x # xs) pattern \<or> includes_str xs pattern)"

definition invalidatePattern :: "'v SmartCache \<Rightarrow> string \<Rightarrow> nat \<times> 'v SmartCache" where
  "invalidatePattern c pattern =
     fold (\<lambda>key (invalidated, c').
             if includes_str key pattern then (invalidated + 1, snd (delete c' key))
             else (invalidated, c'))
          (keys c) (0, c)"

subsection \<open>Call sequences and example states\<close>

text \<open>\<open>get_repeatedly c key ts\<close> calls \<^verbatim>\<open>get(key)\<close> once at each clock reading of \<open>ts\<close>.\<close>

fun get_repeatedly :: "'v SmartCache \<Rightarrow> string \<Rightarrow> int list \<Rightarrow> 'v nullable list \<times> 'v SmartCache" where
  "get_repeatedly c key [] = ([], c)"
| "get_repeatedly c key (now # ts) =
     (case get c key now of (r, c1) \<Rightarrow>
        (case get_repeatedly c1 key ts of (rs, c2) \<Rightarrow> (r # rs, c2)))"

text \<open>\<open>set_all c ops\<close> performs the \<^verbatim>\<open>set(key, value, ttl)\<close> calls of \<open>ops\<close> in order.\<close>

fun set_all :: "'v SmartCache \<Rightarrow> (string \<times> 'v nullable \<times> jsnum \<times> int) list \<Rightarrow> 'v SmartCache" where
  "set_all c [] = c"
| "set_all c ((key, val, t, now) # ops) = set_all (set_c c key val t now) ops"

definition exampleConfig :: CacheConfig where
  "exampleConfig =
     \<lparr>maxSize = num 2, defaultTtl = num 1000, cleanupInterval = num 60000,
      evictionPolicy = LRU\<rparr>"

text \<open>
  Scenario A: \<^verbatim>\<open>set(a,1)\<close>, \<^verbatim>\<open>set(b,2)\<close>, \<^verbatim>\<open>get(a)\<close>, \<^verbatim>\<open>set(c,3)\<close> on a new cache, the
  four calls reading the clock at \<open>t1\<close>, \<open>t2\<close>, \<open>t3\<close>, \<open>t4\<close>; no TTL is passed.
\<close>

definition scenarioA :: "CacheConfig \<Rightarrow> int \<Rightarrow> int \<Rightarrow> int \<Rightarrow> int \<Rightarrow> int SmartCache" where
  "scenarioA cfg t1 t2 t3 t4 =
     (let c1 = set_c (new_SmartCache cfg) ''a'' (Value 1) Undefined t1;
          c2 = set_c c1 ''b'' (Value 2) Undefined t2;
          c3 = snd (get c2 ''a'' t3)
      in set_c c3 ''c'' (Value 3) Undefined t4)"

text \<open>Scenario B: \<^verbatim>\<open>set(x, "v", ttl=10)\<close> at time 0 on a new cache.\<close>

definition scenarioB :: "string SmartCache" where
  "scenarioB = set_c (new_SmartCache exampleConfig) ''x'' (Value ''v'') (num 10) 0"

text \<open>
  A full two-entry cache under the TTL policy: \<^verbatim>\<open>a\<close> is stored at time 0 with TTL 100,
  \<^verbatim>\<open>b\<close> at time 1 with TTL 50.
\<close>

definition fullTtlCache :: "int SmartCache" where
  "fullTtlCache =
     set_c (set_c (new_SmartCache (exampleConfig\<lparr>evictionPolicy := TTL\<rparr>))
              ''a'' (Value 1) (num 100) 0) ''b'' (Value 2) (num 50) 1"

definition zeroCapacityConfig :: CacheConfig where
  "zeroCapacityConfig =
     \<lparr>maxSize = num 0, defaultTtl = num 1000, cleanupInterval = num 60000,
      evictionPolicy = LRU\<rparr>"

text \<open>
  Scenario C: the product cache (the configuration of \<^verbatim>\<open>ProductCache\<close>) before any call,
  loaders that resolve to 42, resolve to \<^verbatim>\<open>null\<close> and reject, and an outside world in
  which no loader has been called yet.
\<close>

definition productConfig :: CacheConfig where
  "productConfig =
     \<lparr>maxSize = num 500, defaultTtl = num (10 * 60 * 1000), cleanupInterval = num (60 * 1000),
      evictionPolicy = LFU\<rparr>"

definition loaderReturning42 :: "unit \<Rightarrow> (string + int nullable) \<times> unit" where
  "loaderReturning42 w = (Inr (Value 42), w)"

definition failingLoader :: "unit \<Rightarrow> (string + int nullable) \<times> unit" where
  "failingLoader w = (Inl ''database unreachable'', w)"

definition loaderReturningNull :: "unit \<Rightarrow> (string + int nullable) \<times> unit" where
  "loaderReturningNull w = (Inr Null, w)"

definition noCalls :: "unit Env" where
  "noCalls = \<lparr>world = (), calls = 0\<rparr>"

definition coldProductCache :: "int SmartCache" where
  "coldProductCache = new_SmartCache productConfig"

definition nullStored :: "int SmartCache" where
  "nullStored = set_c coldProductCache ''p1'' Null Undefined 0"

text \<open>Scenario D: a cache holding the keys \<^verbatim>\<open>product:1\<close>, \<^verbatim>\<open>product:2\<close>, \<^verbatim>\<open>customer:9\<close>.\<close>

definition scenarioD :: "int SmartCache" where
  "scenarioD =
     set_all (new_SmartCache productConfig)
       [(''product:1'', Value 1, Undefined, 0), (''product:2'', Value 2, Undefined, 0),
        (''customer:9'', Value 9, Undefined, 0)]"

text \<open>
  Calls on the manager and on the caches it holds, between two \<^verbatim>\<open>getCache\<close> calls:
  \<open>OnCache r op\<close> is a call of a \<^verbatim>\<open>SmartCache\<close> method on the instance at address \<open>r\<close>.
\<close>

datatype 'v cache_op =
    OpSet string "'v nullable" jsnum int
  | OpGet string int
  | OpHas string int
  | OpDelete string
  | OpClear
  | OpCleanup int

fun apply_cache_op :: "'v cache_op \<Rightarrow> 'v SmartCache \<Rightarrow> 'v SmartCache" where
  "apply_cache_op (OpSet key val t now) c = set_c c key val t now"
| "apply_cache_op (OpGet key now) c = snd (get c key now)"
| "apply_cache_op (OpHas key now) c = snd (has c key now)"
| "apply_cache_op (OpDelete key) c = snd (delete c key)"
| "apply_cache_op OpClear c = clear c"
| "apply_cache_op (OpCleanup now) c = cleanup c now"

datatype 'v manager_op =
    GetCache string "PartialConfig option"
  | DestroyCache string
  | ClearAll
  | OnCache nat "'v cache_op"

fun manager_step :: "'v manager_op \<Rightarrow> 'v CacheManager \<Rightarrow> 'v CacheManager" where
  "manager_step (GetCache name cfg) m = snd (getCache m name cfg)"
| "manager_step (DestroyCache name) m = snd (destroyCache m name)"
| "manager_step ClearAll m = clearAll m"
| "manager_step (OnCache r op) m =
     (if r < length (store m) then m\<lparr>store := (store m)[r := apply_cache_op op (store m ! r)]\<rparr>
      else m)"

definition emptyManager :: "int CacheManager" where
  "emptyManager = \<lparr>caches = [], store = []\<rparr>"

definition smallConfig :: PartialConfig where
  "smallConfig = \<lparr>maxSize_opt = Some (num 5), defaultTtl_opt = None, cleanupInterval_opt = None,
                  evictionPolicy_opt = Some LFU\<rparr>"

definition otherConfig :: PartialConfig where
  "otherConfig = \<lparr>maxSize_opt = Some (num 99), defaultTtl_opt = Some (num 1),
                  cleanupInterval_opt = None,
                  evictionPolicy_opt = Some TTL\<rparr>"

definition exampleOps :: "int manager_op list" where
  "exampleOps =
     [GetCache ''y'' None, OnCache 0 (OpSet ''k'' (Value 1) Undefined 0), ClearAll,
      GetCache ''x'' None, DestroyCache ''y'']"

section \<open>Properties\<close>

subsection \<open>JavaScript numbers\<close>

lemma isNaN_simps [simp]:
  "\<not> isNaN (Fin a)" "\<not> isNaN PosInf" "\<not> isNaN NegInf" "isNaN NaN" "isNaN Undefined"
  "\<not> isNaN (num i)"
  by (simp_all add: isNaN_def num_def)

lemma js_less_num [simp]: "js_less (num a) (num b) = (a < b)" "js_less (num a) PosInf"
  by (simp_all add: num_def)

lemma js_ge_num [simp]: "js_ge (num a) (num b) = (b \<le> a)"
  by (auto simp: js_ge_def num_def)

lemma js_less_trans: "js_less a b \<Longrightarrow> js_less b c \<Longrightarrow> js_less a c"
  by (cases a; cases b; cases c) auto

lemma js_less_not_NaN: "js_less a b \<Longrightarrow> \<not> isNaN a \<and> \<not> isNaN b"
  by (cases a; cases b) (auto simp: isNaN_def)

text \<open>A number that is not below \<open>b\<close> is above everything that is below \<open>b\<close>.\<close>

lemma js_less_above: "js_less a b \<Longrightarrow> \<not> js_less c b \<Longrightarrow> \<not> isNaN c \<Longrightarrow> js_less a c"
  by (cases a; cases b; cases c) (auto simp: isNaN_def)

lemma js_less_irrefl: "\<not> js_less a a"
  by (cases a) auto

lemma round_half_even_of_int [simp]: "round_half_even (of_int m) = m"
  by (simp add: round_half_even_def Let_def)

lemma floor_log2_of_int:
  assumes "1 \<le> a" "a < 2 ^ 53"
  shows "0 \<le> floor_log2 (of_int a)" "floor_log2 (of_int a) \<le> 52"
proof -
  have b: "floor_log2 (of_int a) = bitlen a - 1" using assms by (simp add: floor_log2_def)
  have "1 \<le> bitlen a" using assms(1) bitlen_ge_iff_power[of 1 a] by simp
  then show "0 \<le> floor_log2 (of_int a)" using b by simp
  have "bitlen a \<le> 53" using assms(2) bitlen_le_iff_power[of a 53] by simp
  then show "floor_log2 (of_int a) \<le> 52" using b by simp
qed

text \<open>An integer of magnitude below \<open>2 ^ 53\<close> is a double: rounding leaves it as it is.\<close>

lemma fl_of_int:
  assumes "\<bar>n\<bar> < 2 ^ 53"
  shows "fl (of_int n) = Fin (of_int n)"
proof (cases "n = 0")
  case True
  then show ?thesis by (simp add: fl_def)
next
  case False
  let ?x = "of_int n :: rat"
  have a: "1 \<le> \<bar>n\<bar>" using False by simp
  have ax: "\<bar>?x\<bar> = of_int \<bar>n\<bar>" by simp
  define k where "k = floor_log2 \<bar>?x\<bar>"
  have k: "0 \<le> k" "k \<le> 52" using floor_log2_of_int[OF a assms] by (simp_all add: k_def)
  define j where "j = nat (52 - k)"
  have e: "max (k - 52) (- 1074) = - int j" using k by (simp add: j_def)
  have p: "(2::rat) powi (- int j) = 1 / 2 ^ j" by (simp add: power_int_minus field_simps)
  have q: "?x / (2 powi (- int j)) = of_int (n * 2 ^ j)" by (simp add: p)
  have y: "of_int (round_half_even (?x / 2 powi (- int j))) * 2 powi (- int j) = ?x"
    unfolding q round_half_even_of_int by (simp add: p)
  have "\<bar>?x\<bar> < 2 ^ 53" using assms by (simp only: ax) (metis of_int_less_numeral_power_cancel_iff)
  also have "\<dots> \<le> (2::rat) ^ 1024" by (rule power_increasing) simp_all
  finally have small: "\<not> 2 ^ 1024 \<le> \<bar>?x\<bar>" by simp
  show ?thesis
    using False small unfolding fl_def k_def[symmetric] Let_def e y by simp
qed

lemma fl_numeral:
  "(numeral w :: int) < 2 ^ 53 \<Longrightarrow> fl (numeral w) = Fin (numeral w)"
  "(numeral w :: int) < 2 ^ 53 \<Longrightarrow> fl (- numeral w) = Fin (- numeral w)"
  "fl 0 = Fin 0" "fl 1 = Fin 1" "fl (- 1) = Fin (- 1)"
  using fl_of_int[of "numeral w"] fl_of_int[of "- numeral w"] fl_of_int[of 0] fl_of_int[of 1]
    fl_of_int[of "- 1"]
  by simp_all

subsection \<open>The association list\<close>

lemma map_of_Map_delete: "map_of (Map_delete k m) k' = (if k' = k then None else map_of m k')"
  by (induction m) (auto simp: Map_delete_def)

lemma map_of_Map_set: "map_of (Map_set k v m) k' = (if k' = k then Some v else map_of m k')"
  by (induction m) auto

lemma Map_set_new: "map_of m k = None \<Longrightarrow> Map_set k v m = m @ [(k, v)]"
  by (induction m) (auto split: if_splits)

lemma keys_Map_set_present: "map_of m k \<noteq> None \<Longrightarrow> map fst (Map_set k v m) = map fst m"
  by (induction m) (auto split: if_splits)

lemma length_Map_set: "length (Map_set k v m) = (if map_of m k = None then Suc (length m) else length m)"
  by (induction m) (auto split: if_splits)

lemma keys_Map_delete: "map fst (Map_delete k m) = removeAll k (map fst m)"
  by (induction m) (auto simp: Map_delete_def)

lemma distinct_Map_delete: "distinct (map fst m) \<Longrightarrow> distinct (map fst (Map_delete k m))"
  by (simp add: keys_Map_delete distinct_removeAll)

lemma distinct_Map_set: "distinct (map fst m) \<Longrightarrow> distinct (map fst (Map_set k v m))"
  by (cases "map_of m k") (auto simp: Map_set_new keys_Map_set_present map_of_eq_None_iff)

lemma length_Map_delete:
  "distinct (map fst m) \<Longrightarrow> map_of m k \<noteq> None \<Longrightarrow> Suc (length (Map_delete k m)) = length m"
proof (induction m)
  case Nil
  then show ?case by simp
next
  case (Cons p m)
  show ?case
  proof (cases "fst p = k")
    case True
    with Cons.prems have "k \<notin> fst ` set m" by auto
    then have "filter (\<lambda>q. fst q \<noteq> k) m = m"
      by (intro filter_True) auto
    with True show ?thesis by (simp add: Map_delete_def)
  next
    case False
    with Cons show ?thesis by (cases p) (auto simp: Map_delete_def)
  qed
qed

lemma Map_delete_absent: "map_of m k = None \<Longrightarrow> Map_delete k m = m"
  unfolding Map_delete_def by (intro filter_True) (auto simp: map_of_eq_None_iff)

lemma Map_delete_split:
  "distinct (map fst (pre @ (k, e) # post)) \<Longrightarrow> Map_delete k (pre @ (k, e) # post) = pre @ post"
proof -
  assume d: "distinct (map fst (pre @ (k, e) # post))"
  then have "filter (\<lambda>p. fst p \<noteq> k) pre = pre" "filter (\<lambda>p. fst p \<noteq> k) post = post"
    by (auto intro!: filter_True)
  then show ?thesis by (simp add: Map_delete_def)
qed


text \<open>
  What the scan returns: either nothing was below the starting measure and the start is
  returned, or the key of the first entry whose measure is smallest: it is below the
  measure of every earlier entry that has one (a \<^verbatim>\<open>NaN\<close> is passed over), and no later
  entry is below it.
\<close>

lemma scan_char:
  "scan f m (bk, bv) = (k, v) \<Longrightarrow>
     (k = bk \<and> v = bv \<and> (\<forall>p\<in>set m. \<not> js_less (f (snd p)) bv)) \<or>
     (\<exists>pre e post. m = pre @ (k, e) # post \<and> v = f e \<and> js_less (f e) bv \<and>
        (\<forall>p\<in>set pre. \<not> isNaN (f (snd p)) \<longrightarrow> js_less (f e) (f (snd p))) \<and>
        (\<forall>p\<in>set post. \<not> js_less (f (snd p)) (f e)))"
proof (induction m arbitrary: bk bv)
  case Nil
  then show ?case by simp
next
  case (Cons p m)
  obtain key entry where p: "p = (key, entry)" by (cases p)
  show ?case
  proof (cases "js_less (f entry) bv")
    case True
    with Cons.prems p have s: "scan f m (key, f entry) = (k, v)" by simp
    from Cons.IH[OF s] show ?thesis
    proof
      assume a: "k = key \<and> v = f entry \<and> (\<forall>p\<in>set m. \<not> js_less (f (snd p)) (f entry))"
      then have "p # m = [] @ (k, entry) # m \<and> v = f entry \<and> js_less (f entry) bv \<and>
        (\<forall>q\<in>set []. \<not> isNaN (f (snd q)) \<longrightarrow> js_less (f entry) (f (snd q))) \<and>
        (\<forall>q\<in>set m. \<not> js_less (f (snd q)) (f entry))"
        using True p by auto
      then show ?thesis by blast
    next
      assume "\<exists>pre e post. m = pre @ (k, e) # post \<and> v = f e \<and> js_less (f e) (f entry) \<and>
        (\<forall>p\<in>set pre. \<not> isNaN (f (snd p)) \<longrightarrow> js_less (f e) (f (snd p))) \<and>
        (\<forall>p\<in>set post. \<not> js_less (f (snd p)) (f e))"
      then obtain pre e post where h: "m = pre @ (k, e) # post" "v = f e" "js_less (f e) (f entry)"
        "\<forall>p\<in>set pre. \<not> isNaN (f (snd p)) \<longrightarrow> js_less (f e) (f (snd p))"
        "\<forall>p\<in>set post. \<not> js_less (f (snd p)) (f e)" by auto
      have "js_less (f e) bv" using True h(3) by (rule js_less_trans[rotated])
      then have "p # m = (p # pre) @ (k, e) # post \<and> v = f e \<and> js_less (f e) bv \<and>
        (\<forall>q\<in>set (p # pre). \<not> isNaN (f (snd q)) \<longrightarrow> js_less (f e) (f (snd q))) \<and>
        (\<forall>q\<in>set post. \<not> js_less (f (snd q)) (f e))"
        using h p by auto
      then show ?thesis by blast
    qed
  next
    case False
    with Cons.prems p have s: "scan f m (bk, bv) = (k, v)" by simp
    from Cons.IH[OF s] show ?thesis
    proof
      assume "k = bk \<and> v = bv \<and> (\<forall>p\<in>set m. \<not> js_less (f (snd p)) bv)"
      then show ?thesis using False p by auto
    next
      assume "\<exists>pre e post. m = pre @ (k, e) # post \<and> v = f e \<and> js_less (f e) bv \<and>
        (\<forall>p\<in>set pre. \<not> isNaN (f (snd p)) \<longrightarrow> js_less (f e) (f (snd p))) \<and>
        (\<forall>p\<in>set post. \<not> js_less (f (snd p)) (f e))"
      then obtain pre e post where h: "m = pre @ (k, e) # post" "v = f e" "js_less (f e) bv"
        "\<forall>p\<in>set pre. \<not> isNaN (f (snd p)) \<longrightarrow> js_less (f e) (f (snd p))"
        "\<forall>p\<in>set post. \<not> js_less (f (snd p)) (f e)" by auto
      have "\<not> isNaN (f entry) \<longrightarrow> js_less (f e) (f entry)"
        using False h(3) js_less_above[of "f e" bv "f entry"] by blast
      then have "p # m = (p # pre) @ (k, e) # post \<and> v = f e \<and> js_less (f e) bv \<and>
        (\<forall>q\<in>set (p # pre). \<not> isNaN (f (snd q)) \<longrightarrow> js_less (f e) (f (snd q))) \<and>
        (\<forall>q\<in>set post. \<not> js_less (f (snd q)) (f e))"
        using h p by auto
      then show ?thesis by blast
    qed
  qed
qed

lemma scan_first_min:
  assumes "m \<noteq> []" and "\<forall>p\<in>set m. js_less (f (snd p)) PosInf"
  shows "\<exists>pre e post. m = pre @ (fst (scan f m (k0, PosInf)), e) # post \<and>
        (\<forall>p\<in>set pre. js_less (f e) (f (snd p))) \<and> (\<forall>p\<in>set post. \<not> js_less (f (snd p)) (f e))"
proof -
  obtain k v where s: "scan f m (k0, PosInf) = (k, v)" by (cases "scan f m (k0, PosInf)")
  from assms have "\<not> (\<forall>p\<in>set m. \<not> js_less (f (snd p)) PosInf)" by (cases m) auto
  with scan_char[OF s] obtain pre e post where
    h: "m = pre @ (k, e) # post"
      "\<forall>p\<in>set pre. \<not> isNaN (f (snd p)) \<longrightarrow> js_less (f e) (f (snd p))"
      "\<forall>p\<in>set post. \<not> js_less (f (snd p)) (f e)"
    by blast
  have "\<forall>p\<in>set pre. js_less (f e) (f (snd p))"
  proof
    fix p assume "p \<in> set pre"
    then have "p \<in> set m" using h(1) by simp
    then have "\<not> isNaN (f (snd p))" using assms(2) js_less_not_NaN by blast
    then show "js_less (f e) (f (snd p))" using h(2) \<open>p \<in> set pre\<close> by blast
  qed
  with h s show ?thesis by auto
qed

text \<open>When no measure is below \<^verbatim>\<open>Infinity\<close> the scan returns the empty string it started with.\<close>

lemma scan_none_below:
  "\<forall>p\<in>set m. \<not> js_less (f (snd p)) bv \<Longrightarrow> scan f m (bk, bv) = (bk, bv)"
  by (induction m) auto


subsection \<open>Evaluation of concrete calls\<close>

lemmas cache_eval =
  set_c_def get_def has_def delete_def cleanup_def clear_def evictEntry_def keyToEvict_def
  findLeastRecentlyUsed_def findLeastFrequentlyUsed_def findNearestExpiry_def firstKey_def
  expiryTime_def entryTtl_def isExpired_def updateHitRate_def new_SmartCache_def Map_has_def
  Map_delete_def keys_def size_c_def getStats_def Let_def exampleConfig_def
  num_def js_ge_def isNaN_def truthy_def fl_numeral

subsection \<open>\<^verbatim>\<open>get\<close>\<close>

lemma updateHitRate_fields [simp]:
  "hits (updateHitRate s) = hits s"
  "misses (updateHitRate s) = misses s"
  "sets (updateHitRate s) = sets s"
  "deletes (updateHitRate s) = deletes s"
  "evictions (updateHitRate s) = evictions s"
  "totalSize (updateHitRate s) = totalSize s"
  by (simp_all add: updateHitRate_def Let_def)

lemma get_absent:
  "map_of (cache c) k = None \<Longrightarrow>
     get c k now = (Null, c\<lparr>stats := updateHitRate ((stats c)\<lparr>misses := misses (stats c) + 1\<rparr>)\<rparr>)"
  by (simp add: get_def)

lemma get_expired:
  "map_of (cache c) k = Some e \<Longrightarrow> isExpired now e \<Longrightarrow>
     get c k now =
       (Null, c\<lparr>cache := Map_delete k (cache c),
                stats := updateHitRate ((stats c)\<lparr>misses := misses (stats c) + 1,
                                                 evictions := evictions (stats c) + 1\<rparr>)\<rparr>)"
  by (simp add: get_def)

lemma get_live:
  "map_of (cache c) k = Some e \<Longrightarrow> \<not> isExpired now e \<Longrightarrow>
     get c k now =
       (data e,
        c\<lparr>cache := Map_set k (e\<lparr>accessCount := accessCount e + 1, lastAccessed := now\<rparr>) (cache c),
          stats := updateHitRate ((stats c)\<lparr>hits := hits (stats c) + 1\<rparr>)\<rparr>)"
  by (simp add: get_def)

lemma get_repeatedly_absent:
  "map_of (cache c) k = None \<Longrightarrow> get_repeatedly c k ts = (rs, c2) \<Longrightarrow>
     rs = replicate (length ts) Null \<and> cache c2 = cache c \<and>
     evictions (stats c2) = evictions (stats c) \<and>
     misses (stats c2) = misses (stats c) + length ts"
proof (induction ts arbitrary: c rs c2)
  case Nil
  then show ?case by simp
next
  case (Cons t ts)
  let ?c1 = "c\<lparr>stats := updateHitRate ((stats c)\<lparr>misses := misses (stats c) + 1\<rparr>)\<rparr>"
  obtain rs' c' where r: "get_repeatedly ?c1 k ts = (rs', c')"
    by (cases "get_repeatedly ?c1 k ts")
  have a: "map_of (cache ?c1) k = None" using Cons.prems(1) by simp
  from Cons.prems r have e: "rs = Null # rs'" "c2 = c'"
    by (simp_all add: get_absent)
  from Cons.IH[OF a r] e show ?case by simp
qed


text \<open>
  Claim C3. When the entry of key \<open>k\<close> has expired (\<open>now - timestamp > ttl\<close>), \<^verbatim>\<open>get(k)\<close>
  returns the absent value, records one miss, removes the entry and increments
  \<open>evictions\<close> by one; any number of later \<^verbatim>\<open>get(k)\<close> calls, at any clock readings,
  return absent and record one miss each, and \<open>evictions\<close> stays at the value it had
  after the first call.
\<close>

theorem expired_get_evicts_once:
  assumes "map_of (cache c) k = Some e" and "isExpired now e"
    and "get c k now = (r, c1)" and "get_repeatedly c1 k ts = (rs, c2)"
  shows "r = Null \<and> cache c1 = Map_delete k (cache c) \<and> map_of (cache c1) k = None \<and>
         misses (stats c1) = misses (stats c) + 1 \<and>
         evictions (stats c1) = evictions (stats c) + 1 \<and>
         rs = replicate (length ts) Null \<and> map_of (cache c2) k = None \<and>
         misses (stats c2) = misses (stats c) + 1 + length ts \<and>
         evictions (stats c2) = evictions (stats c) + 1"
proof -
  from get_expired[OF assms(1,2)] assms(3)
  have c1: "r = Null" "cache c1 = Map_delete k (cache c)"
    "misses (stats c1) = misses (stats c) + 1" "evictions (stats c1) = evictions (stats c) + 1"
    by auto
  have a: "map_of (cache c1) k = None" by (simp add: c1(2) map_of_Map_delete)
  from get_repeatedly_absent[OF a assms(4)] c1 a show ?thesis by simp
qed

theorem expired_get_evicts_once_witness:
  "map_of (cache scenarioB) ''x'' =
     Some \<lparr>data = Value ''v'', timestamp = 0, ttl = num 10, accessCount = 1, lastAccessed = 0\<rparr> \<and>
   isExpired 11 \<lparr>data = Value ''v'', timestamp = 0, ttl = num 10, accessCount = 1,
                 lastAccessed = 0\<rparr> \<and>
   fst (get scenarioB ''x'' 11) = Null \<and>
   evictions (stats (snd (get scenarioB ''x'' 11))) = evictions (stats scenarioB) + 1 \<and>
   fst (get_repeatedly (snd (get scenarioB ''x'' 11)) ''x'' [12, 13]) = [Null, Null] \<and>
   evictions (stats (snd (get_repeatedly (snd (get scenarioB ''x'' 11)) ''x'' [12, 13]))) =
     evictions (stats scenarioB) + 1"
proof -
  let ?e = "\<lparr>data = Value ''v'', timestamp = 0, ttl = num 10, accessCount = 1, lastAccessed = 0\<rparr>
              :: string CacheEntry"
  have h1: "map_of (cache scenarioB) ''x'' = Some ?e"
    by (simp add: scenarioB_def cache_eval)
  have h2: "isExpired 11 ?e" by (simp add: cache_eval)
  show ?thesis
    using h1 h2 expired_get_evicts_once [OF h1 h2 surjective_pairing surjective_pairing, of "[12, 13]"]
    by simp
qed

subsection \<open>Eviction and \<^verbatim>\<open>set\<close>\<close>

text \<open>
  The key that \<^verbatim>\<open>evictEntry\<close> picks in a non-empty store. Under LRU and LFU every measure
  is a finite number; under TTL the lemma needs every \<^verbatim>\<open>timestamp + ttl\<close> to be below
  \<^verbatim>\<open>Infinity\<close>, the first comparison of the scan.
\<close>

lemma keyToEvict_split:
  assumes "cache c \<noteq> []" and
    "(evictionPolicy (config c) = TTL \<longrightarrow>
      (\<forall>p\<in>set (cache c). js_less (expiryTime (snd p)) PosInf))"
  shows "\<exists>pre e post. cache c = pre @ (keyToEvict c, e) # post \<and>
     (evictionPolicy (config c) = LRU \<longrightarrow>
        (\<forall>p\<in>set pre. lastAccessed e < lastAccessed (snd p)) \<and>
        (\<forall>p\<in>set post. lastAccessed e \<le> lastAccessed (snd p))) \<and>
     (evictionPolicy (config c) = LFU \<longrightarrow>
        (\<forall>p\<in>set pre. accessCount e < accessCount (snd p)) \<and>
        (\<forall>p\<in>set post. accessCount e \<le> accessCount (snd p))) \<and>
     (evictionPolicy (config c) = TTL \<longrightarrow>
        (\<forall>p\<in>set pre. js_less (expiryTime e) (expiryTime (snd p))) \<and>
        (\<forall>p\<in>set post. \<not> js_less (expiryTime (snd p)) (expiryTime e)))"
proof (cases "evictionPolicy (config c)")
  case LRU
  from scan_first_min[OF assms(1), of "\<lambda>e. num (lastAccessed e)" "''''"] LRU show ?thesis
    by (simp add: keyToEvict_def findLeastRecentlyUsed_def not_less)
next
  case LFU
  from scan_first_min[OF assms(1), of "\<lambda>e. num (int (accessCount e))" "''''"] LFU show ?thesis
    by (simp add: keyToEvict_def findLeastFrequentlyUsed_def not_less)
next
  case TTL
  with assms(2) have "\<forall>p\<in>set (cache c). js_less (expiryTime (snd p)) PosInf" by simp
  from scan_first_min[OF assms(1) this, of "''''"] TTL show ?thesis
    by (simp add: keyToEvict_def findNearestExpiry_def)
next
  case Unrecognized
  obtain k e post where "cache c = (k, e) # post" using assms(1) by (cases "cache c") auto
  then have "cache c = [] @ (keyToEvict c, e) # post"
    using Unrecognized by (simp add: keyToEvict_def firstKey_def)
  then show ?thesis using Unrecognized
    by (intro exI[where x="[]"] exI[where x=e] exI[where x=post]) simp
qed

lemma evictEntry_nonempty:
  "cache c \<noteq> [] \<Longrightarrow>
     evictEntry c =
       c\<lparr>cache := Map_delete (keyToEvict c) (cache c),
         stats := (stats c)\<lparr>evictions := evictions (stats c) + 1,
                            totalSize := length (Map_delete (keyToEvict c) (cache c))\<rparr>\<rparr>"
  by (simp add: evictEntry_def Let_def)

lemma set_c_evicting:
  "js_ge (num (int (length (cache c)))) (maxSize (config c)) \<Longrightarrow> \<not> Map_has (cache c) key \<Longrightarrow>
     set_c c key val t now =
       (let m = Map_set key \<lparr>data = val, timestamp = now, ttl = entryTtl c t,
                             accessCount = 1, lastAccessed = now\<rparr> (cache (evictEntry c))
        in (evictEntry c)\<lparr>cache := m,
              stats := (stats (evictEntry c))\<lparr>sets := sets (stats (evictEntry c)) + 1,
                                              totalSize := length m\<rparr>\<rparr>)"
  by (simp add: set_c_def Let_def)

lemma set_c_present:
  "Map_has (cache c) key \<Longrightarrow>
     set_c c key val t now =
       (let m = Map_set key \<lparr>data = val, timestamp = now, ttl = entryTtl c t,
                             accessCount = 1, lastAccessed = now\<rparr> (cache c)
        in c\<lparr>cache := m, stats := (stats c)\<lparr>sets := sets (stats c) + 1, totalSize := length m\<rparr>\<rparr>)"
  by (simp add: set_c_def Let_def)

lemma set_c_room:
  "\<not> js_ge (num (int (length (cache c)))) (maxSize (config c)) \<Longrightarrow>
     set_c c key val t now =
       (let m = Map_set key \<lparr>data = val, timestamp = now, ttl = entryTtl c t,
                             accessCount = 1, lastAccessed = now\<rparr> (cache c)
        in c\<lparr>cache := m, stats := (stats c)\<lparr>sets := sets (stats c) + 1, totalSize := length m\<rparr>\<rparr>)"
  by (simp add: set_c_def Let_def)

lemma set_at_capacity_general:
  assumes d: "distinct (map fst (cache c))" and ne: "cache c \<noteq> []"
    and full: "js_ge (num (int (length (cache c)))) (maxSize (config c))"
    and new: "\<not> Map_has (cache c) key"
    and sel: "(evictionPolicy (config c) = TTL \<longrightarrow>
      (\<forall>p\<in>set (cache c). js_less (expiryTime (snd p)) PosInf))"
  shows "(\<exists>pre k e post. cache c = pre @ (k, e) # post \<and>
     (evictionPolicy (config c) = LRU \<longrightarrow>
        (\<forall>p\<in>set pre. lastAccessed e < lastAccessed (snd p)) \<and>
        (\<forall>p\<in>set post. lastAccessed e \<le> lastAccessed (snd p))) \<and>
     (evictionPolicy (config c) = LFU \<longrightarrow>
        (\<forall>p\<in>set pre. accessCount e < accessCount (snd p)) \<and>
        (\<forall>p\<in>set post. accessCount e \<le> accessCount (snd p))) \<and>
     (evictionPolicy (config c) = TTL \<longrightarrow>
        (\<forall>p\<in>set pre. js_less (expiryTime e) (expiryTime (snd p))) \<and>
        (\<forall>p\<in>set post. \<not> js_less (expiryTime (snd p)) (expiryTime e))) \<and>
     cache (set_c c key val t now) = pre @ post @ [(key, \<lparr>data = val, timestamp = now, ttl = entryTtl c t,
                             accessCount = 1, lastAccessed = now\<rparr>)] \<and>
     evictions (stats (set_c c key val t now)) = evictions (stats c) + 1)"
proof -
  from keyToEvict_split[OF ne sel] obtain pre e post where
    s: "cache c = pre @ (keyToEvict c, e) # post" and
    p: "     (evictionPolicy (config c) = LRU \<longrightarrow>
        (\<forall>p\<in>set pre. lastAccessed e < lastAccessed (snd p)) \<and>
        (\<forall>p\<in>set post. lastAccessed e \<le> lastAccessed (snd p))) \<and>
     (evictionPolicy (config c) = LFU \<longrightarrow>
        (\<forall>p\<in>set pre. accessCount e < accessCount (snd p)) \<and>
        (\<forall>p\<in>set post. accessCount e \<le> accessCount (snd p))) \<and>
     (evictionPolicy (config c) = TTL \<longrightarrow>
        (\<forall>p\<in>set pre. js_less (expiryTime e) (expiryTime (snd p))) \<and>
        (\<forall>p\<in>set post. \<not> js_less (expiryTime (snd p)) (expiryTime e)))"
    by blast
  have del: "Map_delete (keyToEvict c) (cache c) = pre @ post"
    using Map_delete_split[of pre "keyToEvict c" e post] d s by simp
  have absent: "map_of (pre @ post) key = None"
  proof -
    have "map_of (cache c) key = None" using new by (simp add: Map_has_def)
    then have "key \<notin> fst ` set (cache c)" by (simp add: map_of_eq_None_iff)
    then have "key \<notin> fst ` set (pre @ post)" using s by auto
    then show ?thesis by (auto simp: map_of_eq_None_iff)
  qed
  have c: "cache (set_c c key val t now) = pre @ post @ [(key, \<lparr>data = val, timestamp = now, ttl = entryTtl c t,
                             accessCount = 1, lastAccessed = now\<rparr>)]"
    using absent by (simp add: set_c_evicting[OF full new] evictEntry_nonempty[OF ne] del Let_def Map_set_new)
  have ev: "evictions (stats (set_c c key val t now)) = evictions (stats c) + 1"
    by (simp add: set_c_evicting[OF full new] evictEntry_nonempty[OF ne] Let_def)
  from s p c ev show ?thesis by blast
qed

lemma scenarioA_ok:
  assumes "maxSize cfg = num 2" "evictionPolicy cfg = LRU" "t2 < t3"
    and "\<not> js_less (defaultTtl cfg) (js_sub (num t3) (num t1))"
    and "\<not> js_less (defaultTtl cfg) (js_sub (num t5) (num t1))"
    and "\<not> js_less (defaultTtl cfg) (js_sub (num t7) (num t4))"
  shows "keys (scenarioA cfg t1 t2 t3 t4) = [''a'', ''c''] \<and>
    (case get (scenarioA cfg t1 t2 t3 t4) ''a'' t5 of (ra, ca) \<Rightarrow>
       case get ca ''b'' t6 of (rb, cb) \<Rightarrow>
         case get cb ''c'' t7 of (rc, cc) \<Rightarrow> ra = Value 1 \<and> rb = Null \<and> rc = Value 3)"
  using assms by (simp add: scenarioA_def cache_eval)

text \<open>
  Claim C1, as amended. When a non-empty cache is at capacity (\<open>size \<ge> maxSize\<close>) and
  \<^verbatim>\<open>set\<close> is called with a key that is not present, and, under the TTL policy, every
  entry's \<^verbatim>\<open>timestamp + ttl\<close> is below \<^verbatim>\<open>Infinity\<close> (no TTL that is \<^verbatim>\<open>Infinity\<close>, \<^verbatim>\<open>NaN\<close> or
  \<^verbatim>\<open>undefined\<close>), the entry removed before the insertion is the first one in iteration
  order whose measure is smallest: every entry before it has a strictly larger measure
  and no entry after it has a smaller one, the measure being \<open>lastAccessed\<close> under LRU,
  \<open>accessCount\<close> under LFU and \<^verbatim>\<open>timestamp + ttl\<close>, as the code computes it, under TTL;
  the new entry is appended and \<open>evictions\<close> grows by one.
  Scenario A (LRU, \<open>maxSize = 2\<close>) evicts \<^verbatim>\<open>b\<close> and then reads \<^verbatim>\<open>a\<close> as 1, \<^verbatim>\<open>b\<close> as
  absent and \<^verbatim>\<open>c\<close> as 3, provided the clock reading of \<^verbatim>\<open>get(a)\<close> is strictly later
  than the one of \<^verbatim>\<open>set(b,2)\<close> and no entry has outlived its TTL when it is read.
\<close>

theorem set_at_capacity_evicts_by_policy:
  "(distinct (map fst (cache c)) \<and> cache c \<noteq> [] \<and>
    js_ge (num (int (length (cache c)))) (maxSize (config c)) \<and> \<not> Map_has (cache c) key \<and>
    (evictionPolicy (config c) = TTL \<longrightarrow>
      (\<forall>p\<in>set (cache c). js_less (expiryTime (snd p)) PosInf)) \<longrightarrow>
    (\<exists>pre k e post. cache c = pre @ (k, e) # post \<and>
     (evictionPolicy (config c) = LRU \<longrightarrow>
        (\<forall>p\<in>set pre. lastAccessed e < lastAccessed (snd p)) \<and>
        (\<forall>p\<in>set post. lastAccessed e \<le> lastAccessed (snd p))) \<and>
     (evictionPolicy (config c) = LFU \<longrightarrow>
        (\<forall>p\<in>set pre. accessCount e < accessCount (snd p)) \<and>
        (\<forall>p\<in>set post. accessCount e \<le> accessCount (snd p))) \<and>
     (evictionPolicy (config c) = TTL \<longrightarrow>
        (\<forall>p\<in>set pre. js_less (expiryTime e) (expiryTime (snd p))) \<and>
        (\<forall>p\<in>set post. \<not> js_less (expiryTime (snd p)) (expiryTime e))) \<and>
     cache (set_c c key val t now) = pre @ post @ [(key, \<lparr>data = val, timestamp = now, ttl = entryTtl c t,
                             accessCount = 1, lastAccessed = now\<rparr>)] \<and>
     evictions (stats (set_c c key val t now)) = evictions (stats c) + 1)) \<and>
   (maxSize cfg = num 2 \<and> evictionPolicy cfg = LRU \<and> t2 < t3 \<and>
    \<not> js_less (defaultTtl cfg) (js_sub (num t3) (num t1)) \<and>
    \<not> js_less (defaultTtl cfg) (js_sub (num t5) (num t1)) \<and>
    \<not> js_less (defaultTtl cfg) (js_sub (num t7) (num t4)) \<longrightarrow>
    keys (scenarioA cfg t1 t2 t3 t4) = [''a'', ''c''] \<and>
    (case get (scenarioA cfg t1 t2 t3 t4) ''a'' t5 of (ra, ca) \<Rightarrow>
       case get ca ''b'' t6 of (rb, cb) \<Rightarrow>
         case get cb ''c'' t7 of (rc, cc) \<Rightarrow> ra = Value 1 \<and> rb = Null \<and> rc = Value 3))"
proof -
  have A: "distinct (map fst (cache c)) \<and> cache c \<noteq> [] \<and>
    js_ge (num (int (length (cache c)))) (maxSize (config c)) \<and> \<not> Map_has (cache c) key \<and>
    (evictionPolicy (config c) = TTL \<longrightarrow>
      (\<forall>p\<in>set (cache c). js_less (expiryTime (snd p)) PosInf)) \<longrightarrow>
    (\<exists>pre k e post. cache c = pre @ (k, e) # post \<and>
     (evictionPolicy (config c) = LRU \<longrightarrow>
        (\<forall>p\<in>set pre. lastAccessed e < lastAccessed (snd p)) \<and>
        (\<forall>p\<in>set post. lastAccessed e \<le> lastAccessed (snd p))) \<and>
     (evictionPolicy (config c) = LFU \<longrightarrow>
        (\<forall>p\<in>set pre. accessCount e < accessCount (snd p)) \<and>
        (\<forall>p\<in>set post. accessCount e \<le> accessCount (snd p))) \<and>
     (evictionPolicy (config c) = TTL \<longrightarrow>
        (\<forall>p\<in>set pre. js_less (expiryTime e) (expiryTime (snd p))) \<and>
        (\<forall>p\<in>set post. \<not> js_less (expiryTime (snd p)) (expiryTime e))) \<and>
     cache (set_c c key val t now) = pre @ post @ [(key, \<lparr>data = val, timestamp = now, ttl = entryTtl c t,
                             accessCount = 1, lastAccessed = now\<rparr>)] \<and>
     evictions (stats (set_c c key val t now)) = evictions (stats c) + 1)"
    using set_at_capacity_general[of c key val t now] by blast
  have B: "maxSize cfg = num 2 \<and> evictionPolicy cfg = LRU \<and> t2 < t3 \<and>
    \<not> js_less (defaultTtl cfg) (js_sub (num t3) (num t1)) \<and>
    \<not> js_less (defaultTtl cfg) (js_sub (num t5) (num t1)) \<and>
    \<not> js_less (defaultTtl cfg) (js_sub (num t7) (num t4)) \<longrightarrow>
    keys (scenarioA cfg t1 t2 t3 t4) = [''a'', ''c''] \<and>
    (case get (scenarioA cfg t1 t2 t3 t4) ''a'' t5 of (ra, ca) \<Rightarrow>
       case get ca ''b'' t6 of (rb, cb) \<Rightarrow>
         case get cb ''c'' t7 of (rc, cc) \<Rightarrow> ra = Value 1 \<and> rb = Null \<and> rc = Value 3)"
    by (intro impI scenarioA_ok) simp_all
  from conjI[OF A B] show ?thesis .
qed

theorem set_at_capacity_evicts_by_policy_witness:
  "(distinct (map fst (cache fullTtlCache)) \<and> cache fullTtlCache \<noteq> [] \<and>
    js_ge (num (int (length (cache fullTtlCache)))) (maxSize (config fullTtlCache)) \<and>
    \<not> Map_has (cache fullTtlCache) ''c'' \<and>
    evictionPolicy (config fullTtlCache) = TTL \<and>
    list_all (\<lambda>p. js_less (expiryTime (snd p)) PosInf) (cache fullTtlCache)) \<and>
   keys (set_c fullTtlCache ''c'' (Value 3) Undefined 7) = [''a'', ''c''] \<and>
   (maxSize exampleConfig = num 2 \<and> evictionPolicy exampleConfig = LRU \<and> (2::int) < 3 \<and>
    \<not> js_less (defaultTtl exampleConfig) (js_sub (num 3) (num 1)) \<and>
    \<not> js_less (defaultTtl exampleConfig) (js_sub (num 5) (num 1)) \<and>
    \<not> js_less (defaultTtl exampleConfig) (js_sub (num 7) (num 4))) \<and>
   keys (scenarioA exampleConfig 1 2 3 4) = [''a'', ''c''] \<and>
   (case get (scenarioA exampleConfig 1 2 3 4) ''a'' 5 of (ra, ca) \<Rightarrow>
      case get ca ''b'' 6 of (rb, cb) \<Rightarrow>
        case get cb ''c'' 7 of (rc, cc) \<Rightarrow> ra = Value 1 \<and> rb = Null \<and> rc = Value 3)"
proof -
  have h: "distinct (map fst (cache fullTtlCache)) \<and> cache fullTtlCache \<noteq> [] \<and>
    js_ge (num (int (length (cache fullTtlCache)))) (maxSize (config fullTtlCache)) \<and>
    \<not> Map_has (cache fullTtlCache) ''c'' \<and>
    evictionPolicy (config fullTtlCache) = TTL \<and>
    list_all (\<lambda>p. js_less (expiryTime (snd p)) PosInf) (cache fullTtlCache)"
    by (simp add: fullTtlCache_def cache_eval)
  have k: "keys (set_c fullTtlCache ''c'' (Value 3) Undefined 7) = [''a'', ''c'']"
    by (simp add: fullTtlCache_def cache_eval)
  have g: "maxSize exampleConfig = num 2 \<and> evictionPolicy exampleConfig = LRU \<and> (2::int) < 3 \<and>
    \<not> js_less (defaultTtl exampleConfig) (js_sub (num 3) (num 1)) \<and>
    \<not> js_less (defaultTtl exampleConfig) (js_sub (num 5) (num 1)) \<and>
    \<not> js_less (defaultTtl exampleConfig) (js_sub (num 7) (num 4))"
    by (simp add: cache_eval)
  show ?thesis
    using h k g
      set_at_capacity_evicts_by_policy [of fullTtlCache "''c''" "Value 3" Undefined 7
        exampleConfig 2 3 1 5 7 4 6]
    by (simp add: list_all_iff)
qed

text \<open>
  Claim C1 as stated fails: when the four calls of scenario A read the same clock value
  (they run within one millisecond), \<^verbatim>\<open>a\<close> and \<^verbatim>\<open>b\<close> have equal \<open>lastAccessed\<close>, the
  tie goes to the first entry in iteration order, and \<^verbatim>\<open>a\<close> is evicted instead of \<^verbatim>\<open>b\<close>.
\<close>

theorem scenarioA_same_millisecond_counterexample:
  "keys (scenarioA exampleConfig 0 0 0 0) = [''b'', ''c''] \<and>
   fst (get (scenarioA exampleConfig 0 0 0 0) ''a'' 0) = Null \<and>
   fst (get (scenarioA exampleConfig 0 0 0 0) ''b'' 0) = Value 2"
  by (simp add: scenarioA_def cache_eval)

subsection \<open>The capacity bound\<close>

lemma config_evictEntry [simp]: "config (evictEntry c) = config c"
  by (simp add: evictEntry_def Let_def)

lemma config_set_c [simp]: "config (set_c c key val t now) = config c"
  by (simp add: set_c_def Let_def)

lemma keyToEvict_present:
  assumes "cache c \<noteq> []" and
    "(evictionPolicy (config c) = TTL \<longrightarrow>
      (\<forall>p\<in>set (cache c). js_less (expiryTime (snd p)) PosInf))"
  shows "map_of (cache c) (keyToEvict c) \<noteq> None"
proof -
  from keyToEvict_split[OF assms] obtain pre e post where
    "cache c = pre @ (keyToEvict c, e) # post" by blast
  then have "keyToEvict c \<in> fst ` set (cache c)" by force
  then show ?thesis by (simp add: map_of_eq_None_iff)
qed

lemma distinct_evictEntry:
  "distinct (map fst (cache c)) \<Longrightarrow> distinct (map fst (cache (evictEntry c)))"
  by (simp add: evictEntry_def Let_def distinct_Map_delete)

lemma length_evictEntry:
  assumes "distinct (map fst (cache c))" and "cache c \<noteq> []" and
    "(evictionPolicy (config c) = TTL \<longrightarrow>
      (\<forall>p\<in>set (cache c). js_less (expiryTime (snd p)) PosInf))"
  shows "Suc (length (cache (evictEntry c))) = length (cache c)"
  using assms(1,2) keyToEvict_present[OF assms(2,3)]
  by (simp add: evictEntry_nonempty length_Map_delete)

lemma map_of_evictEntry_absent:
  "map_of (cache c) key = None \<Longrightarrow> map_of (cache (evictEntry c)) key = None"
  by (simp add: evictEntry_def Let_def map_of_Map_delete)

lemma distinct_set_c:
  "distinct (map fst (cache c)) \<Longrightarrow> distinct (map fst (cache (set_c c key val t now)))"
  by (simp add: set_c_def Let_def distinct_Map_set distinct_evictEntry)

lemma length_set_c_present:
  "Map_has (cache c) key \<Longrightarrow> length (cache (set_c c key val t now)) = length (cache c)"
  by (simp add: set_c_present Let_def length_Map_set Map_has_def)

lemma set_Map_set: "set (Map_set k v m) \<subseteq> insert (k, v) (set m)"
  by (induction m) auto

lemma set_evictEntry: "set (cache (evictEntry c)) \<subseteq> set (cache c)"
  by (auto simp: evictEntry_def Let_def Map_delete_def)

text \<open>The entries after a \<^verbatim>\<open>set\<close> are entries from before and the new one.\<close>

lemma set_c_entries:
  "set (cache (set_c c key val t now)) \<subseteq>
     insert (key, \<lparr>data = val, timestamp = now, ttl = entryTtl c t,
                            accessCount = 1, lastAccessed = now\<rparr>) (set (cache c))"
proof (cases "js_ge (num (int (length (cache c)))) (maxSize (config c)) \<and> \<not> Map_has (cache c) key")
  case True
  then have "cache (set_c c key val t now) =
      Map_set key \<lparr>data = val, timestamp = now, ttl = entryTtl c t,
                            accessCount = 1, lastAccessed = now\<rparr> (cache (evictEntry c))"
    by (simp add: set_c_def Let_def)
  then show ?thesis
    using set_Map_set[of key "\<lparr>data = val, timestamp = now, ttl = entryTtl c t,
                            accessCount = 1, lastAccessed = now\<rparr>" "cache (evictEntry c)"] set_evictEntry[of c]
    by (simp only:) auto
next
  case False
  then have "cache (set_c c key val t now) =
      Map_set key \<lparr>data = val, timestamp = now, ttl = entryTtl c t,
                            accessCount = 1, lastAccessed = now\<rparr> (cache c)"
    by (auto simp: set_c_def Let_def)
  then show ?thesis
    using set_Map_set[of key "\<lparr>data = val, timestamp = now, ttl = entryTtl c t,
                            accessCount = 1, lastAccessed = now\<rparr>" "cache c"]
    by (simp only:)
qed

lemma expiry_set_c:
  assumes "\<forall>p\<in>set (cache c). js_less (expiryTime (snd p)) PosInf"
    and "js_less (js_add (num now) (entryTtl c t)) PosInf"
  shows "\<forall>p\<in>set (cache (set_c c key val t now)). js_less (expiryTime (snd p)) PosInf"
proof
  fix p assume "p \<in> set (cache (set_c c key val t now))"
  with set_c_entries[of c key val t now]
  have "p = (key, \<lparr>data = val, timestamp = now, ttl = entryTtl c t,
                            accessCount = 1, lastAccessed = now\<rparr>) \<or> p \<in> set (cache c)"
    by auto
  then show "js_less (expiryTime (snd p)) PosInf"
    using assms by (auto simp: expiryTime_def)
qed

lemma length_set_c_bound:
  assumes m: "maxSize (config c) = num n" and n: "1 \<le> n" and d: "distinct (map fst (cache c))"
    and le: "int (length (cache c)) \<le> n" and
    sel: "(evictionPolicy (config c) = TTL \<longrightarrow>
      (\<forall>p\<in>set (cache c). js_less (expiryTime (snd p)) PosInf))"
  shows "int (length (cache (set_c c key val t now))) \<le> n"
proof (cases "Map_has (cache c) key")
  case True
  then show ?thesis using le by (simp add: length_set_c_present)
next
  case new: False
  then have absent: "map_of (cache c) key = None" by (simp add: Map_has_def)
  show ?thesis
  proof (cases "n \<le> int (length (cache c))")
    case True
    then have full: "js_ge (num (int (length (cache c)))) (maxSize (config c))" by (simp add: m)
    from True n have ne: "cache c \<noteq> []" by auto
    have "length (cache (set_c c key val t now)) = Suc (length (cache (evictEntry c)))"
      using map_of_evictEntry_absent[OF absent]
      by (simp add: set_c_evicting[OF full new] Let_def length_Map_set)
    then show ?thesis using length_evictEntry[OF d ne sel] le by simp
  next
    case False
    then have room: "\<not> js_ge (num (int (length (cache c)))) (maxSize (config c))" by (simp add: m)
    have "length (cache (set_c c key val t now)) = Suc (length (cache c))"
      using absent by (simp add: set_c_room[OF room] Let_def length_Map_set)
    then show ?thesis using False by simp
  qed
qed

lemma set_all_invariant:
  assumes "maxSize (config c) = num n" and "1 \<le> n" and "distinct (map fst (cache c))"
    and "int (length (cache c)) \<le> n"
    and "evictionPolicy (config c) = TTL \<longrightarrow>
      (\<forall>p\<in>set (cache c). js_less (expiryTime (snd p)) PosInf) \<and>
      (\<forall>(k', v', t', now')\<in>set ops. js_less (js_add (num now') (entryTtl c t')) PosInf)"
  shows "config (set_all c ops) = config c \<and> distinct (map fst (cache (set_all c ops))) \<and>
     int (length (cache (set_all c ops))) \<le> n"
  using assms
proof (induction ops arbitrary: c)
  case Nil
  then show ?case by simp
next
  case (Cons op ops)
  obtain key val t now where op: "op = (key, val, t, now)" by (cases op)
  let ?c = "set_c c key val t now"
  have sel: "(evictionPolicy (config c) = TTL \<longrightarrow>
      (\<forall>p\<in>set (cache c). js_less (expiryTime (snd p)) PosInf))"
    using Cons.prems(5) by simp
  have 1: "maxSize (config ?c) = num n" using Cons.prems(1) by simp
  have 2: "distinct (map fst (cache ?c))" using Cons.prems(3) by (rule distinct_set_c)
  have 3: "int (length (cache ?c)) \<le> n"
    using length_set_c_bound[OF Cons.prems(1-4) sel] .
  have 4: "evictionPolicy (config ?c) = TTL \<longrightarrow>
      (\<forall>p\<in>set (cache ?c). js_less (expiryTime (snd p)) PosInf) \<and>
      (\<forall>(k', v', t', now')\<in>set ops. js_less (js_add (num now') (entryTtl ?c t')) PosInf)"
  proof
    assume "evictionPolicy (config ?c) = TTL"
    then have T: "evictionPolicy (config c) = TTL" by simp
    with Cons.prems(5) op have a: "\<forall>p\<in>set (cache c). js_less (expiryTime (snd p)) PosInf"
      and b: "js_less (js_add (num now) (entryTtl c t)) PosInf"
      and r: "\<forall>(k', v', t', now')\<in>set ops. js_less (js_add (num now') (entryTtl c t')) PosInf"
      by auto
    have e: "\<And>t'. entryTtl ?c t' = entryTtl c t'" by (simp add: entryTtl_def)
    from expiry_set_c[OF a b] r
    show "(\<forall>p\<in>set (cache ?c). js_less (expiryTime (snd p)) PosInf) \<and>
      (\<forall>(k', v', t', now')\<in>set ops. js_less (js_add (num now') (entryTtl ?c t')) PosInf)"
      by (simp add: e)
  qed
  from Cons.IH[OF 1 Cons.prems(2) 2 3 4] op show ?case by simp
qed

lemma set_c_present_effect:
  "Map_has (cache c) key \<Longrightarrow>
     evictions (stats (set_c c key val t now)) = evictions (stats c) \<and>
     keys (set_c c key val t now) = keys c"
  by (simp add: set_c_present Let_def keys_def keys_Map_set_present Map_has_def)

lemma set_c_room_effect:
  "\<not> Map_has (cache c) key \<Longrightarrow> \<not> js_ge (num (int (length (cache c)))) (maxSize (config c)) \<Longrightarrow>
     evictions (stats (set_c c key val t now)) = evictions (stats c) \<and>
     cache (set_c c key val t now) = cache c @ [(key, \<lparr>data = val, timestamp = now, ttl = entryTtl c t,
                            accessCount = 1, lastAccessed = now\<rparr>)]"
  by (simp add: set_c_room Let_def Map_set_new Map_has_def)

text \<open>
  Claim C2, as amended. Take a cache whose \<open>maxSize\<close> is an integer \<open>n \<ge> 1\<close>, whose size
  is at most \<open>n\<close> (a new cache is empty) and, under the TTL policy, whose entries and
  \<^verbatim>\<open>set\<close> calls all have a \<^verbatim>\<open>timestamp + ttl\<close> below \<^verbatim>\<open>Infinity\<close> (no TTL that is
  \<^verbatim>\<open>Infinity\<close>, \<^verbatim>\<open>NaN\<close> or \<^verbatim>\<open>undefined\<close>). Then the size is at most \<open>n\<close> after every
  finite sequence of \<^verbatim>\<open>set\<close> calls. A \<^verbatim>\<open>set\<close> of a key that is present evicts nothing and
  keeps the keys; a \<^verbatim>\<open>set\<close> of a new key below capacity evicts nothing and appends the
  entry; a \<^verbatim>\<open>set\<close> of a new key while \<open>size \<ge> maxSize\<close> removes exactly one entry before
  appending the new one and adds one to \<open>evictions\<close>.
\<close>

theorem set_keeps_capacity:
  assumes "maxSize (config c) = num n" and "1 \<le> n" and "distinct (map fst (cache c))"
    and "int (size_c c) \<le> n"
    and "evictionPolicy (config c) = TTL \<longrightarrow>
      (\<forall>p\<in>set (cache c). js_less (expiryTime (snd p)) PosInf) \<and>
      (\<forall>(k', v', t', now')\<in>set ops. js_less (js_add (num now') (entryTtl c t')) PosInf)"
  shows "int (size_c (set_all c ops)) \<le> n \<and>
    (Map_has (cache c) key \<longrightarrow>
       evictions (stats (set_c c key val t now)) = evictions (stats c) \<and>
       keys (set_c c key val t now) = keys c) \<and>
    (\<not> Map_has (cache c) key \<and> int (size_c c) < n \<longrightarrow>
       evictions (stats (set_c c key val t now)) = evictions (stats c) \<and>
       cache (set_c c key val t now) = cache c @ [(key, \<lparr>data = val, timestamp = now, ttl = entryTtl c t,
                            accessCount = 1, lastAccessed = now\<rparr>)]) \<and>
    (\<not> Map_has (cache c) key \<and> n \<le> int (size_c c) \<longrightarrow>
       evictions (stats (set_c c key val t now)) = evictions (stats c) + 1 \<and>
       (\<exists>pre k e post. cache c = pre @ (k, e) # post \<and>
          cache (set_c c key val t now) = pre @ post @ [(key, \<lparr>data = val, timestamp = now, ttl = entryTtl c t,
                            accessCount = 1, lastAccessed = now\<rparr>)]))"
proof -
  have le: "int (length (cache c)) \<le> n" using assms(4) by (simp add: size_c_def)
  have sel: "(evictionPolicy (config c) = TTL \<longrightarrow>
      (\<forall>p\<in>set (cache c). js_less (expiryTime (snd p)) PosInf))"
    using assms(5) by simp
  have 1: "int (size_c (set_all c ops)) \<le> n"
    using set_all_invariant[OF assms(1-3) le assms(5)] by (simp add: size_c_def)
  have 2: "(Map_has (cache c) key \<longrightarrow>
       evictions (stats (set_c c key val t now)) = evictions (stats c) \<and>
       keys (set_c c key val t now) = keys c)"
    using set_c_present_effect[of c key val t now] by blast
  have 3: "(\<not> Map_has (cache c) key \<and> int (size_c c) < n \<longrightarrow>
       evictions (stats (set_c c key val t now)) = evictions (stats c) \<and>
       cache (set_c c key val t now) = cache c @ [(key, \<lparr>data = val, timestamp = now, ttl = entryTtl c t,
                            accessCount = 1, lastAccessed = now\<rparr>)])"
    using set_c_room_effect[of c key val t now] by (simp add: size_c_def assms(1))
  have 4: "(\<not> Map_has (cache c) key \<and> n \<le> int (size_c c) \<longrightarrow>
       evictions (stats (set_c c key val t now)) = evictions (stats c) + 1 \<and>
       (\<exists>pre k e post. cache c = pre @ (k, e) # post \<and>
          cache (set_c c key val t now) = pre @ post @ [(key, \<lparr>data = val, timestamp = now, ttl = entryTtl c t,
                            accessCount = 1, lastAccessed = now\<rparr>)]))"
  proof (intro impI)
    assume a: "\<not> Map_has (cache c) key \<and> n \<le> int (size_c c)"
    then have full: "js_ge (num (int (length (cache c)))) (maxSize (config c))"
      by (simp add: size_c_def assms(1))
    from a assms(2) have ne: "cache c \<noteq> []" by (auto simp: size_c_def)
    from set_at_capacity_general[OF assms(3) ne full _ sel, of key val t now] a
    show "evictions (stats (set_c c key val t now)) = evictions (stats c) + 1 \<and>
       (\<exists>pre k e post. cache c = pre @ (k, e) # post \<and>
          cache (set_c c key val t now) = pre @ post @ [(key, \<lparr>data = val, timestamp = now, ttl = entryTtl c t,
                            accessCount = 1, lastAccessed = now\<rparr>)])"
      by blast
  qed
  from 1 2 3 4 show ?thesis by (intro conjI)
qed

theorem set_keeps_capacity_witness:
  "(maxSize (config fullTtlCache) = num 2 \<and> (1::int) \<le> 2 \<and>
    distinct (map fst (cache fullTtlCache)) \<and> int (size_c fullTtlCache) \<le> 2 \<and>
    evictionPolicy (config fullTtlCache) = TTL \<and>
    list_all (\<lambda>p. js_less (expiryTime (snd p)) PosInf) (cache fullTtlCache) \<and>
    list_all (\<lambda>(k', v', t', now'). js_less (js_add (num now') (entryTtl fullTtlCache t')) PosInf)
      [(''c'', Value 3, Undefined, 7), (''a'', Value 4, num 50, 8), (''d'', Value 5, num 0, 9)]) \<and>
   Map_has (cache fullTtlCache) ''a'' \<and>
   (\<not> Map_has (cache fullTtlCache) ''c'' \<and> 2 \<le> int (size_c fullTtlCache)) \<and>
   int (size_c (set_all fullTtlCache [(''c'', Value 3, Undefined, 7), (''a'', Value 4, num 50, 8), (''d'', Value 5, num 0, 9)])) \<le> 2 \<and>
   evictions (stats (set_c fullTtlCache ''a'' (Value 4) (num 50) 8)) =
     evictions (stats fullTtlCache) \<and>
   evictions (stats (set_c fullTtlCache ''c'' (Value 3) Undefined 7)) =
     evictions (stats fullTtlCache) + 1"
proof -
  have h: "maxSize (config fullTtlCache) = num 2" "(1::int) \<le> 2"
    "distinct (map fst (cache fullTtlCache))" "int (size_c fullTtlCache) \<le> 2"
    by (simp_all add: fullTtlCache_def cache_eval)
  have s: "evictionPolicy (config fullTtlCache) = TTL"
    "\<forall>p\<in>set (cache fullTtlCache). js_less (expiryTime (snd p)) PosInf"
    "\<forall>(k', v', t', now')\<in>set [(''c'', Value 3, Undefined, 7), (''a'', Value 4, num 50, 8), (''d'', Value 5, num 0, 9)].
        js_less (js_add (num now') (entryTtl fullTtlCache t')) PosInf"
    by (simp_all add: fullTtlCache_def cache_eval)
  have s': "evictionPolicy (config fullTtlCache) = TTL \<longrightarrow>
      (\<forall>p\<in>set (cache fullTtlCache). js_less (expiryTime (snd p)) PosInf) \<and>
      (\<forall>(k', v', t', now')\<in>set [(''c'', Value 3, Undefined, 7), (''a'', Value 4, num 50, 8), (''d'', Value 5, num 0, 9)].
          js_less (js_add (num now') (entryTtl fullTtlCache t')) PosInf)"
    using s by blast
  have p: "Map_has (cache fullTtlCache) ''a''"
    "\<not> Map_has (cache fullTtlCache) ''c''"
    "2 \<le> int (size_c fullTtlCache)"
    by (simp_all add: fullTtlCache_def cache_eval)
  note T = set_keeps_capacity [OF h s']
  have a: "int (size_c (set_all fullTtlCache [(''c'', Value 3, Undefined, 7), (''a'', Value 4, num 50, 8), (''d'', Value 5, num 0, 9)])) \<le> 2"
    using T [of "''a''" "Value 4" "num 50" 8] by blast
  have b: "evictions (stats (set_c fullTtlCache ''a'' (Value 4) (num 50) 8)) =
     evictions (stats fullTtlCache)"
    using T [of "''a''" "Value 4" "num 50" 8] p(1) by blast
  have c: "evictions (stats (set_c fullTtlCache ''c'' (Value 3) Undefined 7)) =
     evictions (stats fullTtlCache) + 1"
    using T [of "''c''" "Value 3" Undefined 7] p(2,3) by blast
  have l: "list_all (\<lambda>p. js_less (expiryTime (snd p)) PosInf) (cache fullTtlCache)"
    "list_all (\<lambda>(k', v', t', now'). js_less (js_add (num now') (entryTtl fullTtlCache t')) PosInf)
      [(''c'', Value 3, Undefined, 7), (''a'', Value 4, num 50, 8), (''d'', Value 5, num 0, 9)]"
    using s(2,3) by (simp_all add: list_all_iff)
  from h s(1) l p a b c show ?thesis by (intro conjI)
qed

text \<open>
  Claim C2 as stated fails for \<open>maxSize = 0\<close>: \<^verbatim>\<open>evictEntry\<close> returns at once on an empty
  store, so the first \<^verbatim>\<open>set\<close> evicts nothing and leaves one entry in a cache of capacity 0.
\<close>

theorem zero_capacity_counterexample:
  "maxSize (config (new_SmartCache zeroCapacityConfig :: int SmartCache)) = num 0 \<and>
   size_c (set_all (new_SmartCache zeroCapacityConfig) [(''a'', Value (1::int), Undefined, 0)]) = 1 \<and>
   evictions (stats (set_c (new_SmartCache zeroCapacityConfig) ''a'' (Value (1::int)) Undefined 0)) = 0"
  by (simp add: zeroCapacityConfig_def cache_eval)

subsection \<open>Settings the capacity bound does not cover\<close>

text \<open>
  Under the TTL policy an entry whose \<^verbatim>\<open>timestamp + ttl\<close> is \<^verbatim>\<open>Infinity\<close> or \<^verbatim>\<open>NaN\<close> is
  never below the running minimum: when every entry is such, \<^verbatim>\<open>findNearestExpiry\<close> returns
  the empty string, \<^verbatim>\<open>evictEntry\<close> deletes nothing (no entry has that key here) and still
  counts an eviction, and the cache grows past \<open>maxSize\<close>. A default TTL that is
  \<^verbatim>\<open>undefined\<close>, copied over the default by the spread in \<^verbatim>\<open>getCache\<close>, does the same.
  A fractional \<open>maxSize\<close> is exceeded by the entry that reaches the next integer.
\<close>

lemma infinite_ttl_defeats_eviction:
  "size_c (set_all (new_SmartCache (exampleConfig\<lparr>evictionPolicy := TTL\<rparr>))
     [(''a'', Value (1::int), PosInf, 0), (''b'', Value 2, PosInf, 1),
      (''c'', Value 3, PosInf, 2), (''d'', Value 4, PosInf, 3)]) = 4 \<and>
   evictions (stats (set_all (new_SmartCache (exampleConfig\<lparr>evictionPolicy := TTL\<rparr>))
     [(''a'', Value (1::int), PosInf, 0), (''b'', Value 2, PosInf, 1),
      (''c'', Value 3, PosInf, 2), (''d'', Value 4, PosInf, 3)])) = 2"
  by (simp add: cache_eval)

lemma undefined_defaultTtl_defeats_eviction:
  "defaultTtl (mergeConfig defaultConfig
      (Some \<lparr>maxSize_opt = Some (num 2), defaultTtl_opt = Some Undefined,
             cleanupInterval_opt = None, evictionPolicy_opt = Some TTL\<rparr>)) = Undefined \<and>
   size_c (set_all (new_SmartCache (mergeConfig defaultConfig
      (Some \<lparr>maxSize_opt = Some (num 2), defaultTtl_opt = Some Undefined,
             cleanupInterval_opt = None, evictionPolicy_opt = Some TTL\<rparr>)))
     [(''a'', Value (1::int), Undefined, 0), (''b'', Value 2, Undefined, 1),
      (''c'', Value 3, Undefined, 2)]) = 3"
  by (simp add: cache_eval mergeConfig_def defaultConfig_def orElse_def)

lemma fractional_maxSize_is_exceeded:
  "size_c (set_all (new_SmartCache (exampleConfig\<lparr>maxSize := Fin (3 / 2)\<rparr>))
     [(''a'', Value (1::int), Undefined, 0), (''b'', Value 2, Undefined, 1)]) = 2"
  by (simp add: cache_eval)

lemma fl_beyond_2_53:
  "fl 9007199254740992 = Fin 9007199254740992" "fl 9007199254740993 = Fin 9007199254740992"
  by code_simp+

text \<open>
  A sum beyond \<open>2 ^ 53\<close> is rounded: the expiry times of two entries stored at times 2
  and 1 with TTL \<open>2 ^ 53 - 1\<close> are the same double, and the scan keeps the first, which is evicted although the
  exact sum of the second is smaller.
\<close>

lemma rounded_expiry_times_tie:
  "expiryTime \<lparr>data = Value (1::int), timestamp = 2, ttl = num (2 ^ 53 - 1), accessCount = 1,
                lastAccessed = 2\<rparr> = num (2 ^ 53) \<and>
   expiryTime \<lparr>data = Value (2::int), timestamp = 1, ttl = num (2 ^ 53 - 1), accessCount = 1,
                lastAccessed = 1\<rparr> = num (2 ^ 53) \<and>
   keys (set_all (new_SmartCache (exampleConfig\<lparr>evictionPolicy := TTL\<rparr>))
     [(''a'', Value (1::int), num (2 ^ 53 - 1), 2), (''b'', Value 2, num (2 ^ 53 - 1), 1),
      (''c'', Value 3, Undefined, 3)]) = [''b'', ''c'']"
  by (simp add: cache_eval fl_beyond_2_53)

subsection \<open>\<^verbatim>\<open>has\<close>\<close>

lemma has_live:
  "map_of (cache c) k = Some e \<Longrightarrow> \<not> isExpired now e \<Longrightarrow> has c k now = (True, c)"
  by (simp add: has_def)

lemma has_expired:
  "map_of (cache c) k = Some e \<Longrightarrow> isExpired now e \<Longrightarrow>
     has c k now = (False, c\<lparr>cache := Map_delete k (cache c)\<rparr>)"
  by (simp add: has_def)

lemma has_absent: "map_of (cache c) k = None \<Longrightarrow> has c k now = (False, c)"
  by (simp add: has_def)

text \<open>
  Claim C4. The claim asks that every removal of an expired entry, by \<^verbatim>\<open>get\<close>, by
  \<^verbatim>\<open>has\<close> or by the cleanup sweep, adds exactly one to \<open>evictions\<close>. In scenario B the
  entry of \<^verbatim>\<open>x\<close> has expired at time 11: \<^verbatim>\<open>has(x)\<close> removes it and leaves \<open>evictions\<close>
  as it was, and no later \<^verbatim>\<open>get\<close> or sweep counts it either, the entry being gone;
  \<^verbatim>\<open>get(x)\<close> and the sweep, on the same state, each add one.
\<close>

theorem has_purges_without_counting:
  "fst (has scenarioB ''x'' 11) = False \<and>
   cache (snd (has scenarioB ''x'' 11)) = [] \<and>
   evictions (stats (snd (has scenarioB ''x'' 11))) = evictions (stats scenarioB) \<and>
   evictions (stats (snd (get (snd (has scenarioB ''x'' 11)) ''x'' 12))) =
     evictions (stats scenarioB) \<and>
   evictions (stats (cleanup (snd (has scenarioB ''x'' 11)) 12)) = evictions (stats scenarioB) \<and>
   evictions (stats (snd (get scenarioB ''x'' 11))) = evictions (stats scenarioB) + 1 \<and>
   evictions (stats (cleanup scenarioB 11)) = evictions (stats scenarioB) + 1"
  by (simp add: scenarioB_def cache_eval)

subsection \<open>\<^verbatim>\<open>getWithCache\<close>\<close>

lemma config_get [simp]: "config (snd (get c k now)) = config c"
  by (simp add: get_def split: option.splits)

lemma entryTtl_cong: "config c' = config c \<Longrightarrow> entryTtl c' t = entryTtl c t"
  by (simp add: entryTtl_def)

lemma map_of_set_c:
  "map_of (cache (set_c c key val t now)) key =
     Some \<lparr>data = val, timestamp = now, ttl = entryTtl c t, accessCount = 1, lastAccessed = now\<rparr>"
  by (simp add: set_c_def Let_def map_of_Map_set)

lemma getWithCache_hit:
  "map_of (cache c) k = Some e \<Longrightarrow> \<not> isExpired now e \<Longrightarrow> data e \<noteq> Null \<Longrightarrow>
     getWithCache k c q t now now' env = (Inr (data e), snd (get c k now), env)"
  by (simp add: getWithCache_def get_live)

lemma getWithCache_miss:
  "fst (get c k now) = Null \<Longrightarrow>
     getWithCache k c q t now now' env =
       (case invoke q env of
          (Inl err, env1) \<Rightarrow> (Inl err, snd (get c k now), env1)
        | (Inr result, env1) \<Rightarrow> (Inr result, set_c (snd (get c k now)) k result t now', env1))"
  by (cases "get c k now") (auto simp: getWithCache_def split: prod.splits sum.splits)

lemma getWithCache_loaded:
  "fst (get c k now) = Null \<Longrightarrow> q (world env) = (Inr v, w) \<Longrightarrow>
     getWithCache k c q t now now' env =
       (Inr v, set_c (snd (get c k now)) k v t now', \<lparr>world = w, calls = calls env + 1\<rparr>)"
  by (simp add: getWithCache_miss invoke_def)

lemma getWithCache_rejected:
  "fst (get c k now) = Null \<Longrightarrow> q (world env) = (Inl err, w) \<Longrightarrow>
     getWithCache k c q t now now' env =
       (Inl err, snd (get c k now), \<lparr>world = w, calls = calls env + 1\<rparr>)"
  by (simp add: getWithCache_miss invoke_def)

lemmas query_eval =
  getWithCache_def invoke_def productConfig_def loaderReturning42_def failingLoader_def
  loaderReturningNull_def noCalls_def nullStored_def coldProductCache_def

text \<open>
  Claim C5, as amended. When the key is present, unexpired and its stored value is not
  \<^verbatim>\<open>null\<close>, \<^verbatim>\<open>getWithCache\<close> returns the stored value and does not invoke the loader
  (the outside world and the call count are unchanged). When \<^verbatim>\<open>cache.get\<close> returns
  \<^verbatim>\<open>null\<close> and the loader resolves to \<open>v\<close>, the loader is invoked exactly once, \<open>v\<close> is
  returned, and the key holds a fresh entry for \<open>v\<close> whose TTL is the given one, or the
  cache default when none, 0 or \<^verbatim>\<open>NaN\<close> is given; if moreover \<open>v\<close> is not \<^verbatim>\<open>null\<close>, a second
  call within that TTL returns \<open>v\<close> with the call count still one more than at the start.
\<close>

theorem getWithCache_cache_aside:
  "(map_of (cache c) k = Some e \<and> \<not> isExpired now e \<and> data e \<noteq> Null \<longrightarrow>
      getWithCache k c q t now now' env = (Inr (data e), snd (get c k now), env)) \<and>
   (fst (get c k now) = Null \<and> q (world env) = (Inr v, w) \<longrightarrow>
      (case getWithCache k c q t now now' env of
         (r, c', env') \<Rightarrow>
           r = Inr v \<and> world env' = w \<and> calls env' = calls env + 1 \<and>
           map_of (cache c') k =
             Some \<lparr>data = v, timestamp = now', ttl = entryTtl c t, accessCount = 1,
                   lastAccessed = now'\<rparr> \<and>
           (v \<noteq> Null \<and> \<not> isExpired now2 \<lparr>data = v, timestamp = now', ttl = entryTtl c t, accessCount = 1,
                                  lastAccessed = now'\<rparr> \<longrightarrow>
              (case getWithCache k c' q t2 now2 now2' env' of
                 (r2, c2, env2) \<Rightarrow> r2 = Inr v \<and> env2 = env' \<and> calls env2 = calls env + 1))))"
proof -
  have A: "map_of (cache c) k = Some e \<and> \<not> isExpired now e \<and> data e \<noteq> Null \<longrightarrow>
      getWithCache k c q t now now' env = (Inr (data e), snd (get c k now), env)"
    by (simp add: getWithCache_hit)
  have B: "fst (get c k now) = Null \<and> q (world env) = (Inr v, w) \<longrightarrow>
      (case getWithCache k c q t now now' env of
         (r, c', env') \<Rightarrow>
           r = Inr v \<and> world env' = w \<and> calls env' = calls env + 1 \<and>
           map_of (cache c') k =
             Some \<lparr>data = v, timestamp = now', ttl = entryTtl c t, accessCount = 1,
                   lastAccessed = now'\<rparr> \<and>
           (v \<noteq> Null \<and> \<not> isExpired now2 \<lparr>data = v, timestamp = now', ttl = entryTtl c t, accessCount = 1,
                                  lastAccessed = now'\<rparr> \<longrightarrow>
              (case getWithCache k c' q t2 now2 now2' env' of
                 (r2, c2, env2) \<Rightarrow> r2 = Inr v \<and> env2 = env' \<and> calls env2 = calls env + 1)))"
  proof (intro impI)
    assume a: "fst (get c k now) = Null \<and> q (world env) = (Inr v, w)"
    let ?c' = "set_c (snd (get c k now)) k v t now'"
    let ?env' = "\<lparr>world = w, calls = calls env + 1\<rparr>"
    let ?e = "\<lparr>data = v, timestamp = now', ttl = entryTtl c t, accessCount = 1,
               lastAccessed = now'\<rparr>"
    have g: "getWithCache k c q t now now' env = (Inr v, ?c', ?env')"
      using a by (simp add: getWithCache_loaded)
    have m: "map_of (cache ?c') k = Some ?e"
      by (simp add: map_of_set_c entryTtl_cong[of "snd (get c k now)" c])
    have s: "v \<noteq> Null \<and> \<not> isExpired now2 \<lparr>data = v, timestamp = now', ttl = entryTtl c t, accessCount = 1,
                                  lastAccessed = now'\<rparr> \<longrightarrow>
        getWithCache k ?c' q t2 now2 now2' ?env' = (Inr v, snd (get ?c' k now2), ?env')"
      using getWithCache_hit[OF m, of now2 q t2 now2' ?env'] by simp
    show "case getWithCache k c q t now now' env of
         (r, c', env') \<Rightarrow>
           r = Inr v \<and> world env' = w \<and> calls env' = calls env + 1 \<and>
           map_of (cache c') k = Some ?e \<and>
           (v \<noteq> Null \<and> \<not> isExpired now2 \<lparr>data = v, timestamp = now', ttl = entryTtl c t, accessCount = 1,
                                  lastAccessed = now'\<rparr> \<longrightarrow>
              (case getWithCache k c' q t2 now2 now2' env' of
                 (r2, c2, env2) \<Rightarrow> r2 = Inr v \<and> env2 = env' \<and> calls env2 = calls env + 1))"
      using m s by (simp add: g)
  qed
  from conjI[OF A B] show ?thesis .
qed

theorem getWithCache_cache_aside_witness:
  "(fst (get coldProductCache ''p1'' 0) = Null \<and>
    loaderReturning42 (world noCalls) = (Inr (Value 42), ())) \<and>
   (Value 42 \<noteq> (Null :: int nullable) \<and>
    \<not> isExpired 5000 \<lparr>data = Value (42::int), timestamp = 3,
                        ttl = entryTtl coldProductCache Undefined, accessCount = 1,
                        lastAccessed = 3\<rparr>) \<and>
   (case getWithCache ''p1'' coldProductCache loaderReturning42 Undefined 0 3 noCalls of
      (r, c', env') \<Rightarrow>
        r = Inr (Value 42) \<and> calls env' = 1 \<and>
        map_of (cache c') ''p1'' =
          Some \<lparr>data = Value 42, timestamp = 3, ttl = num 600000, accessCount = 1,
                lastAccessed = 3\<rparr> \<and>
        (case getWithCache ''p1'' c' loaderReturning42 Undefined 5000 5000 env' of
           (r2, c2, env2) \<Rightarrow> r2 = Inr (Value 42) \<and> calls env2 = 1))"
proof -
  have h1: "fst (get coldProductCache ''p1'' 0) = Null"
    by (simp add: coldProductCache_def cache_eval)
  have h2: "loaderReturning42 (world noCalls) = (Inr (Value 42), ())"
    by (simp add: loaderReturning42_def)
  have h3: "entryTtl coldProductCache Undefined = num 600000"
    by (simp add: coldProductCache_def cache_eval productConfig_def)
  have h5: "\<not> isExpired 5000 \<lparr>data = Value (42::int), timestamp = 3, ttl = num 600000,
      accessCount = 1, lastAccessed = 3\<rparr>"
    by (simp add: cache_eval)
  have h4: "calls noCalls = 0" by (simp add: noCalls_def)
  show ?thesis
    using h1 h2 h3 h4 h5
      getWithCache_cache_aside [of coldProductCache "''p1''" e 0 loaderReturning42 Undefined 3 noCalls
        "Value 42" "()" 5000 Undefined 5000]
    by (simp split: prod.splits)
qed

text \<open>
  Claim C5 as stated fails when the value is \<^verbatim>\<open>null\<close>: a key that is present and
  unexpired with a stored \<^verbatim>\<open>null\<close> makes \<^verbatim>\<open>getWithCache\<close> invoke the loader, and after
  a loader that resolved to \<^verbatim>\<open>null\<close> the second call within TTL invokes it again (call
  count 2).
\<close>

theorem stored_null_reloads_counterexample:
  "Map_has (cache nullStored) ''p1'' \<and> fst (has nullStored ''p1'' 1) \<and>
   calls (snd (snd (getWithCache ''p1'' nullStored loaderReturning42 Undefined 1 1 noCalls))) = 1 \<and>
   calls (snd (snd (getWithCache ''p1''
            (fst (snd (getWithCache ''p1'' coldProductCache loaderReturningNull
                         Undefined 0 0 noCalls)))
            loaderReturningNull Undefined 1 1
            (snd (snd (getWithCache ''p1'' coldProductCache loaderReturningNull
                         Undefined 0 0 noCalls)))))) = 2"
  by (simp add: query_eval cache_eval)

text \<open>
  Claim C6. When \<^verbatim>\<open>cache.get\<close> returns \<^verbatim>\<open>null\<close> and the loader rejects with \<open>err\<close>,
  \<^verbatim>\<open>getWithCache\<close> fails with the same \<open>err\<close>, and the cache it leaves is the state
  just after \<^verbatim>\<open>get\<close> recorded the miss: nothing is stored, and for a key that was not
  present the entries are those from before the call.
\<close>

theorem getWithCache_propagates_rejection:
  assumes "fst (get c k now) = Null" and "q (world env) = (Inl err, w)"
  shows "getWithCache k c q t now now' env =
           (Inl err, snd (get c k now), \<lparr>world = w, calls = calls env + 1\<rparr>) \<and>
         (map_of (cache c) k = None \<longrightarrow>
            cache (fst (snd (getWithCache k c q t now now' env))) = cache c)"
  using assms by (simp add: getWithCache_rejected get_absent)

theorem getWithCache_propagates_rejection_witness:
  "fst (get coldProductCache ''p1'' 0) = Null \<and>
   failingLoader (world noCalls) = (Inl ''database unreachable'', ()) \<and>
   map_of (cache coldProductCache) ''p1'' = None \<and>
   fst (getWithCache ''p1'' coldProductCache failingLoader Undefined 0 3 noCalls) =
     Inl ''database unreachable'' \<and>
   cache (fst (snd (getWithCache ''p1'' coldProductCache failingLoader Undefined 0 3 noCalls))) = []"
proof -
  have h1: "fst (get coldProductCache ''p1'' 0) = Null"
    by (simp add: coldProductCache_def cache_eval)
  have h2: "failingLoader (world noCalls) = (Inl ''database unreachable'', ())"
    by (simp add: failingLoader_def)
  have h3: "map_of (cache coldProductCache) ''p1'' = None" "cache coldProductCache = []"
    by (simp_all add: coldProductCache_def cache_eval)
  note r = getWithCache_propagates_rejection [of coldProductCache "''p1''" 0 failingLoader noCalls
      "''database unreachable''" "()" Undefined 3, OF h1 h2]
  from r [THEN conjunct1]
  have a: "fst (getWithCache ''p1'' coldProductCache failingLoader Undefined 0 3 noCalls) =
      Inl ''database unreachable''"
    by simp
  from r [THEN conjunct2] h3
  have b: "cache (fst (snd (getWithCache ''p1'' coldProductCache failingLoader Undefined 0 3 noCalls))) = []"
    by simp
  from h1 h2 h3(1) a b show ?thesis by (intro conjI)
qed

text \<open>
  Claim C10. When the entry of \<open>k\<close> is present and unexpired and its value is \<^verbatim>\<open>null\<close>
  (as it is right after \<^verbatim>\<open>set(k, null)\<close>), \<^verbatim>\<open>has(k)\<close> is true but \<^verbatim>\<open>get(k)\<close> returns
  \<^verbatim>\<open>null\<close>, the same result as for a cache \<open>c0\<close> that does not hold \<open>k\<close>; a
  \<^verbatim>\<open>getWithCache\<close> call then invokes the loader, and when the loader resolves to
  \<^verbatim>\<open>null\<close> again the key again holds a \<^verbatim>\<open>null\<close> entry, so the next call does the same.
\<close>

theorem stored_null_is_a_miss:
  assumes "map_of (cache c) k = Some e" and "\<not> isExpired now e" and "data e = Null"
  shows "fst (has c k now) \<and> fst (get c k now) = Null \<and>
    (map_of (cache c0) k = None \<longrightarrow> fst (get c0 k now) = Null) \<and>
    calls (snd (snd (getWithCache k c q t now now' env))) = calls env + 1 \<and>
    (fst (q (world env)) = Inr Null \<longrightarrow>
       map_of (cache (fst (snd (getWithCache k c q t now now' env)))) k =
         Some \<lparr>data = Null, timestamp = now', ttl = entryTtl c t, accessCount = 1,
               lastAccessed = now'\<rparr>) \<and>
    map_of (cache (set_c c0 k Null t0 now0)) k =
      Some \<lparr>data = Null, timestamp = now0, ttl = entryTtl c0 t0, accessCount = 1,
            lastAccessed = now0\<rparr>"
proof -
  have g: "fst (get c k now) = Null" using assms by (simp add: get_live)
  obtain r w where q: "q (world env) = (r, w)" by (cases "q (world env)")
  have 1: "calls (snd (snd (getWithCache k c q t now now' env))) = calls env + 1"
    using q by (cases r) (simp_all add: getWithCache_miss[OF g] invoke_def)
  have 2: "fst (q (world env)) = Inr Null \<longrightarrow>
       map_of (cache (fst (snd (getWithCache k c q t now now' env)))) k =
         Some \<lparr>data = Null, timestamp = now', ttl = entryTtl c t, accessCount = 1,
               lastAccessed = now'\<rparr>"
    using q by (auto simp: getWithCache_loaded[OF g] map_of_set_c
        entryTtl_cong[of "snd (get c k now)" c])
  show ?thesis
    using assms g 1 2 by (simp add: has_live get_absent map_of_set_c)
qed

theorem stored_null_is_a_miss_witness:
  "map_of (cache nullStored) ''p1'' =
     Some \<lparr>data = Null, timestamp = 0, ttl = num 600000, accessCount = 1, lastAccessed = 0\<rparr> \<and>
   \<not> isExpired 1 \<lparr>data = (Null :: int nullable), timestamp = 0, ttl = num 600000, accessCount = 1,
                   lastAccessed = 0\<rparr> \<and>
   map_of (cache coldProductCache) ''p1'' = None \<and>
   fst (loaderReturningNull (world noCalls)) = Inr Null \<and>
   fst (has nullStored ''p1'' 1) \<and>
   fst (get nullStored ''p1'' 1) = Null \<and> fst (get coldProductCache ''p1'' 1) = Null \<and>
   calls (snd (snd (getWithCache ''p1'' nullStored loaderReturningNull Undefined 1 2 noCalls))) = 1 \<and>
   map_of (cache (fst (snd (getWithCache ''p1'' nullStored loaderReturningNull Undefined 1 2 noCalls))))
       ''p1'' =
     Some \<lparr>data = Null, timestamp = 2, ttl = num 600000, accessCount = 1, lastAccessed = 2\<rparr>"
proof -
  let ?e = "\<lparr>data = (Null :: int nullable), timestamp = 0, ttl = num 600000, accessCount = 1,
              lastAccessed = 0\<rparr>"
  have h1: "map_of (cache nullStored) ''p1'' = Some ?e"
    by (simp add: nullStored_def coldProductCache_def productConfig_def cache_eval)
  have h2: "\<not> isExpired 1 ?e" by (simp add: cache_eval)
  have h3: "data ?e = Null" by simp
  have h4: "map_of (cache coldProductCache) ''p1'' = None"
    by (simp add: coldProductCache_def cache_eval)
  have h5: "fst (loaderReturningNull (world noCalls)) = Inr Null"
    by (simp add: loaderReturningNull_def)
  have h6: "calls noCalls = 0" by (simp add: noCalls_def)
  have h7: "entryTtl nullStored Undefined = num 600000"
    by (simp add: nullStored_def coldProductCache_def productConfig_def cache_eval)
  show ?thesis
    using h1 h2 h4 h5 h6 h7
      stored_null_is_a_miss [OF h1 h2 h3, of coldProductCache loaderReturningNull Undefined 2 noCalls]
    by simp
qed

subsection \<open>\<^verbatim>\<open>invalidatePattern\<close>\<close>

lemma startsWith_iff: "startsWith s p \<longleftrightarrow> (\<exists>w. s = p @ w)"
  by (induction s p rule: startsWith.induct) auto

lemma includes_str_iff: "includes_str s p \<longleftrightarrow> (\<exists>u w. s = u @ p @ w)"
proof (induction s)
  case Nil
  then show ?case by (cases p) auto
next
  case (Cons x xs)
  have "(\<exists>u w. x # xs = u @ p @ w) \<longleftrightarrow> (\<exists>w. x # xs = p @ w) \<or> (\<exists>u w. xs = u @ p @ w)"
  proof
    assume "\<exists>u w. x # xs = u @ p @ w"
    then obtain u w where e: "x # xs = u @ p @ w" by blast
    show "(\<exists>w. x # xs = p @ w) \<or> (\<exists>u w. xs = u @ p @ w)"
    proof (cases u)
      case Nil
      with e show ?thesis by auto
    next
      case (Cons y u')
      with e have "xs = u' @ p @ w" by simp
      then show ?thesis by blast
    qed
  next
    assume "(\<exists>w. x # xs = p @ w) \<or> (\<exists>u w. xs = u @ p @ w)"
    then show "\<exists>u w. x # xs = u @ p @ w"
    proof
      assume "\<exists>w. x # xs = p @ w"
      then obtain w where "x # xs = [] @ p @ w" by auto
      then show ?thesis by blast
    next
      assume "\<exists>u w. xs = u @ p @ w"
      then obtain u w where "x # xs = (x # u) @ p @ w" by auto
      then show ?thesis by blast
    qed
  qed
  with Cons show ?case by (simp add: startsWith_iff)
qed

lemma cache_delete: "cache (snd (delete c key)) = Map_delete key (cache c)"
  by (simp add: delete_def Let_def Map_has_def Map_delete_absent)

lemma invalidate_loop:
  "fold (\<lambda>key (invalidated, c').
           if P key then (invalidated + 1, snd (delete c' key)) else (invalidated, c'))
        ks (n, c) = (n', c') \<Longrightarrow>
     n' = n + length (filter P ks) \<and>
     cache c' = filter (\<lambda>p. \<not> (fst p \<in> set ks \<and> P (fst p))) (cache c)"
proof (induction ks arbitrary: n c)
  case Nil
  then show ?case by simp
next
  case (Cons k ks)
  show ?case
  proof (cases "P k")
    case True
    with Cons.prems have
      "fold (\<lambda>key (invalidated, c').
           if P key then (invalidated + 1, snd (delete c' key)) else (invalidated, c'))
        ks (n + 1, snd (delete c k)) = (n', c')" by simp
    from Cons.IH[OF this] True show ?thesis
      by (auto simp: cache_delete Map_delete_def intro!: filter_cong)
  next
    case False
    with Cons.prems have
      "fold (\<lambda>key (invalidated, c').
           if P key then (invalidated + 1, snd (delete c' key)) else (invalidated, c'))
        ks (n, c) = (n', c')" by simp
    from Cons.IH[OF this] False show ?thesis
      by (auto intro!: filter_cong)
  qed
qed

lemma invalidatePattern_result:
  "fst (invalidatePattern c pattern) = length (filter (\<lambda>k. includes_str k pattern) (keys c)) \<and>
   cache (snd (invalidatePattern c pattern)) =
     filter (\<lambda>p. \<not> includes_str (fst p) pattern) (cache c)"
proof -
  obtain n' c' where r: "invalidatePattern c pattern = (n', c')"
    by (cases "invalidatePattern c pattern")
  from invalidate_loop[OF r[unfolded invalidatePattern_def]]
  have "n' = length (filter (\<lambda>k. includes_str k pattern) (keys c))"
    and "cache c' = filter (\<lambda>p. \<not> (fst p \<in> set (keys c) \<and> includes_str (fst p) pattern)) (cache c)"
    by simp_all
  moreover have "filter (\<lambda>p. \<not> (fst p \<in> set (keys c) \<and> includes_str (fst p) pattern)) (cache c)
      = filter (\<lambda>p. \<not> includes_str (fst p) pattern) (cache c)"
    by (rule filter_cong) (auto simp: keys_def)
  ultimately show ?thesis using r by simp
qed

text \<open>
  Claim C7. \<^verbatim>\<open>invalidatePattern(cache, pattern)\<close> leaves exactly the entries whose key
  does not contain the pattern, unchanged and in their order, and returns the number of
  keys that contain it, which is the number of entries removed; a key contains the
  pattern when the pattern occurs in it as a contiguous run of characters. On the keys
  \<^verbatim>\<open>product:1\<close>, \<^verbatim>\<open>product:2\<close>, \<^verbatim>\<open>customer:9\<close> with the pattern \<^verbatim>\<open>product\<close> it removes
  the first two and returns 2.
\<close>

theorem invalidatePattern_removes_matching_keys:
  "cache (snd (invalidatePattern c pattern)) =
     filter (\<lambda>p. \<not> includes_str (fst p) pattern) (cache c) \<and>
   keys (snd (invalidatePattern c pattern)) = filter (\<lambda>k. \<not> includes_str k pattern) (keys c) \<and>
   fst (invalidatePattern c pattern) = length (filter (\<lambda>k. includes_str k pattern) (keys c)) \<and>
   fst (invalidatePattern c pattern) + size_c (snd (invalidatePattern c pattern)) = size_c c \<and>
   (includes_str key pattern \<longleftrightarrow> (\<exists>u w. key = u @ pattern @ w))"
proof -
  note r = invalidatePattern_result[of c pattern]
  have k: "keys (snd (invalidatePattern c pattern)) = filter (\<lambda>k. \<not> includes_str k pattern) (keys c)"
    by (simp add: keys_def r filter_map comp_def)
  have "fst (invalidatePattern c pattern) =
        length (filter (\<lambda>p. includes_str (fst p) pattern) (cache c))"
    by (simp add: r keys_def filter_map comp_def)
  moreover have "size_c (snd (invalidatePattern c pattern)) =
        length (filter (\<lambda>p. \<not> includes_str (fst p) pattern) (cache c))"
    by (simp add: size_c_def r)
  ultimately have s: "fst (invalidatePattern c pattern) + size_c (snd (invalidatePattern c pattern))
      = size_c c"
    using sum_length_filter_compl[of "\<lambda>p. includes_str (fst p) pattern" "cache c"]
    by (simp add: size_c_def)
  from r [THEN conjunct2] k r [THEN conjunct1] s includes_str_iff[of key pattern]
  show ?thesis by (intro conjI)
qed

theorem invalidatePattern_removes_matching_keys_witness:
  "keys scenarioD = [''product:1'', ''product:2'', ''customer:9''] \<and>
   keys (snd (invalidatePattern scenarioD ''product'')) = [''customer:9''] \<and>
   fst (invalidatePattern scenarioD ''product'') = 2"
proof -
  have k: "keys scenarioD = [''product:1'', ''product:2'', ''customer:9'']"
    by (simp add: scenarioD_def productConfig_def cache_eval)
  show ?thesis
    using k invalidatePattern_removes_matching_keys [of scenarioD "''product''"]
    by simp
qed

subsection \<open>The \<open>totalSize\<close> statistic\<close>

lemma length_Map_delete_le: "length (Map_delete k m) \<le> length m"
  by (simp add: Map_delete_def)

lemma get_size_totalSize:
  "length (cache (snd (get c k now))) \<le> length (cache c) \<and>
   totalSize (stats (snd (get c k now))) = totalSize (stats c)"
  by (auto simp: get_def length_Map_delete_le length_Map_set split: option.splits)

lemma has_size_totalSize:
  "length (cache (snd (has c k now))) \<le> length (cache c) \<and>
   totalSize (stats (snd (has c k now))) = totalSize (stats c)"
  by (auto simp: has_def length_Map_delete_le split: option.splits)

lemma totalSize_set_c:
  "totalSize (stats (set_c c key val t now)) = length (cache (set_c c key val t now))"
  by (simp add: set_c_def Let_def)

lemma totalSize_delete:
  "Map_has (cache c) key \<Longrightarrow>
     totalSize (stats (snd (delete c key))) = length (cache (snd (delete c key)))"
  by (simp add: delete_def Let_def)

lemma delete_absent: "\<not> Map_has (cache c) key \<Longrightarrow> delete c key = (False, c)"
  by (simp add: delete_def)

lemma totalSize_cleanup:
  "totalSize (stats (cleanup c now)) = length (cache (cleanup c now))"
  by (simp add: cleanup_def Let_def)

lemma totalSize_clear: "totalSize (stats (clear c)) = length (cache (clear c))"
  by (simp add: clear_def)

lemma lazy_removal_stale:
  assumes d: "distinct (map fst (cache c))" and m: "map_of (cache c) k = Some e"
    and x: "isExpired now e" and inv: "length (cache c) \<le> totalSize (stats c)"
  shows "totalSize (stats (snd (get c k now))) = totalSize (stats c)"
    and "length (cache (snd (get c k now))) < totalSize (stats (snd (get c k now)))"
    and "totalSize (stats (snd (has c k now))) = totalSize (stats c)"
    and "length (cache (snd (has c k now))) < totalSize (stats (snd (has c k now)))"
proof -
  have l: "Suc (length (Map_delete k (cache c))) = length (cache c)"
    using length_Map_delete[OF d, of k] m by simp
  show "totalSize (stats (snd (get c k now))) = totalSize (stats c)"
    by (simp add: get_expired[OF m x])
  show "length (cache (snd (get c k now))) < totalSize (stats (snd (get c k now)))"
    using l inv by (simp add: get_expired[OF m x])
  show "totalSize (stats (snd (has c k now))) = totalSize (stats c)"
    by (simp add: has_expired[OF m x])
  show "length (cache (snd (has c k now))) < totalSize (stats (snd (has c k now)))"
    using l inv by (simp add: has_expired[OF m x])
qed

text \<open>
  No call lets \<open>totalSize\<close> fall below the size of the backing map, so in every state
  reached from a new cache \<open>totalSize\<close> is at least the size.
\<close>

lemma totalSize_never_below_size:
  assumes "length (cache c) \<le> totalSize (stats c)"
  shows "length (cache (apply_cache_op op c)) \<le> totalSize (stats (apply_cache_op op c))"
proof (cases op)
  case (OpSet key val t now)
  then show ?thesis by (simp add: totalSize_set_c)
next
  case (OpGet key now)
  then show ?thesis using assms get_size_totalSize[of c key now] by simp
next
  case (OpHas key now)
  then show ?thesis using assms has_size_totalSize[of c key now] by simp
next
  case (OpDelete key)
  then show ?thesis using assms
    by (cases "Map_has (cache c) key") (simp_all add: totalSize_delete delete_absent)
next
  case OpClear
  then show ?thesis by (simp add: totalSize_clear)
next
  case (OpCleanup now)
  then show ?thesis by (simp add: totalSize_cleanup)
qed

text \<open>
  Claim C9, as amended. When \<^verbatim>\<open>get(k)\<close> or \<^verbatim>\<open>has(k)\<close> removes an expired entry,
  \<open>totalSize\<close> keeps its value, so (it was at least the size before) it exceeds
  \<^verbatim>\<open>size()\<close> afterwards. While it exceeds the size, further \<^verbatim>\<open>get\<close> and \<^verbatim>\<open>has\<close> calls
  leave it exceeding, and a \<^verbatim>\<open>delete\<close> of a key that is not present changes nothing.
  \<^verbatim>\<open>set\<close>, a \<^verbatim>\<open>delete\<close> that removes a key, the cleanup sweep and \<^verbatim>\<open>clear\<close> each leave
  \<open>totalSize\<close> equal to the size of the backing map, whatever it was before.
\<close>

theorem lazy_expiry_leaves_totalSize_stale:
  "(distinct (map fst (cache c)) \<and> map_of (cache c) k = Some e \<and> isExpired now e \<and>
    size_c c \<le> totalSize (getStats c) \<longrightarrow>
      totalSize (getStats (snd (get c k now))) = totalSize (getStats c) \<and>
      size_c (snd (get c k now)) < totalSize (getStats (snd (get c k now))) \<and>
      totalSize (getStats (snd (has c k now))) = totalSize (getStats c) \<and>
      size_c (snd (has c k now)) < totalSize (getStats (snd (has c k now)))) \<and>
   (size_c c < totalSize (getStats c) \<longrightarrow>
      size_c (snd (get c k' now')) < totalSize (getStats (snd (get c k' now'))) \<and>
      size_c (snd (has c k' now')) < totalSize (getStats (snd (has c k' now'))) \<and>
      (\<not> Map_has (cache c) k' \<longrightarrow> snd (delete c k') = c)) \<and>
   totalSize (getStats (set_c c key val t now')) = size_c (set_c c key val t now') \<and>
   (Map_has (cache c) key \<longrightarrow>
      totalSize (getStats (snd (delete c key))) = size_c (snd (delete c key))) \<and>
   totalSize (getStats (cleanup c now')) = size_c (cleanup c now') \<and>
   totalSize (getStats (clear c)) = size_c (clear c)"
proof -
  have A: "distinct (map fst (cache c)) \<and> map_of (cache c) k = Some e \<and> isExpired now e \<and>
    size_c c \<le> totalSize (getStats c) \<longrightarrow>
      totalSize (getStats (snd (get c k now))) = totalSize (getStats c) \<and>
      size_c (snd (get c k now)) < totalSize (getStats (snd (get c k now))) \<and>
      totalSize (getStats (snd (has c k now))) = totalSize (getStats c) \<and>
      size_c (snd (has c k now)) < totalSize (getStats (snd (has c k now)))"
  proof (intro impI)
    assume a: "distinct (map fst (cache c)) \<and> map_of (cache c) k = Some e \<and> isExpired now e \<and>
      size_c c \<le> totalSize (getStats c)"
    then have d: "distinct (map fst (cache c))" and m: "map_of (cache c) k = Some e"
      and x: "isExpired now e" and inv: "length (cache c) \<le> totalSize (stats c)"
      by (simp_all add: size_c_def getStats_def del: map_of_eq_Some_iff)
    from lazy_removal_stale[OF d m x inv]
    show "totalSize (getStats (snd (get c k now))) = totalSize (getStats c) \<and>
      size_c (snd (get c k now)) < totalSize (getStats (snd (get c k now))) \<and>
      totalSize (getStats (snd (has c k now))) = totalSize (getStats c) \<and>
      size_c (snd (has c k now)) < totalSize (getStats (snd (has c k now)))"
      unfolding size_c_def getStats_def by (intro conjI)
  qed
  have B: "size_c c < totalSize (getStats c) \<longrightarrow>
      size_c (snd (get c k' now')) < totalSize (getStats (snd (get c k' now'))) \<and>
      size_c (snd (has c k' now')) < totalSize (getStats (snd (has c k' now'))) \<and>
      (\<not> Map_has (cache c) k' \<longrightarrow> snd (delete c k') = c)"
    using get_size_totalSize[of c k' now'] has_size_totalSize[of c k' now']
    by (simp add: size_c_def getStats_def delete_absent)
  have C: "totalSize (getStats (set_c c key val t now')) = size_c (set_c c key val t now')"
    by (simp add: size_c_def getStats_def totalSize_set_c)
  have D: "Map_has (cache c) key \<longrightarrow>
      totalSize (getStats (snd (delete c key))) = size_c (snd (delete c key))"
    by (simp add: size_c_def getStats_def totalSize_delete)
  have E: "totalSize (getStats (cleanup c now')) = size_c (cleanup c now')"
    by (simp add: size_c_def getStats_def totalSize_cleanup)
  have F: "totalSize (getStats (clear c)) = size_c (clear c)"
    by (simp add: size_c_def getStats_def totalSize_clear)
  from A B C D E F show ?thesis by (intro conjI)
qed

theorem lazy_expiry_leaves_totalSize_stale_witness:
  "(distinct (map fst (cache scenarioB)) \<and>
    map_of (cache scenarioB) ''x'' =
      Some \<lparr>data = Value ''v'', timestamp = 0, ttl = num 10, accessCount = 1, lastAccessed = 0\<rparr> \<and>
    isExpired 11 \<lparr>data = Value ''v'', timestamp = 0, ttl = num 10, accessCount = 1,
                  lastAccessed = 0\<rparr> \<and>
    size_c scenarioB \<le> totalSize (getStats scenarioB)) \<and>
   size_c (snd (get scenarioB ''x'' 11)) < totalSize (getStats (snd (get scenarioB ''x'' 11))) \<and>
   size_c (snd (has scenarioB ''x'' 11)) < totalSize (getStats (snd (has scenarioB ''x'' 11))) \<and>
   Map_has (cache scenarioB) ''x'' \<and>
   totalSize (getStats (snd (delete scenarioB ''x''))) = size_c (snd (delete scenarioB ''x'')) \<and>
   size_c (snd (get scenarioB ''x'' 11)) < totalSize (getStats (snd (get scenarioB ''x'' 11))) \<and>
   \<not> Map_has (cache (snd (get scenarioB ''x'' 11))) ''x'' \<and>
   size_c (snd (get (snd (get scenarioB ''x'' 11)) ''x'' 12))
     < totalSize (getStats (snd (get (snd (get scenarioB ''x'' 11)) ''x'' 12)))"
proof -
  let ?e = "\<lparr>data = Value ''v'', timestamp = 0, ttl = num 10, accessCount = 1, lastAccessed = 0\<rparr>
              :: string CacheEntry"
  have h: "distinct (map fst (cache scenarioB))" "map_of (cache scenarioB) ''x'' = Some ?e"
    "isExpired 11 ?e" "size_c scenarioB \<le> totalSize (getStats scenarioB)"
    "Map_has (cache scenarioB) ''x''"
    by (simp_all add: scenarioB_def cache_eval)
  note T = lazy_expiry_leaves_totalSize_stale [of scenarioB "''x''" ?e 11 "''x''" 12 "''x''"]
  note U = lazy_expiry_leaves_totalSize_stale [of "snd (get scenarioB ''x'' 11)" "''x''" ?e 11
      "''x''" 12 "''x''"]
  have hyp: "distinct (map fst (cache scenarioB)) \<and> map_of (cache scenarioB) ''x'' = Some ?e \<and>
    isExpired 11 ?e \<and> size_c scenarioB \<le> totalSize (getStats scenarioB)"
    using h(1-4) by (intro conjI)
  note A = T [THEN conjunct1, THEN mp, OF hyp]
  have a1: "size_c (snd (get scenarioB ''x'' 11)) < totalSize (getStats (snd (get scenarioB ''x'' 11)))"
    using A by (elim conjE)
  have a2: "size_c (snd (has scenarioB ''x'' 11)) < totalSize (getStats (snd (has scenarioB ''x'' 11)))"
    using A by (elim conjE)
  have a3: "totalSize (getStats (snd (delete scenarioB ''x''))) = size_c (snd (delete scenarioB ''x''))"
    using T [THEN conjunct2, THEN conjunct2, THEN conjunct2, THEN conjunct1, THEN mp, OF h(5)] .
  have n: "\<not> Map_has (cache (snd (get scenarioB ''x'' 11))) ''x''"
    by (simp add: scenarioB_def cache_eval)
  have b: "size_c (snd (get (snd (get scenarioB ''x'' 11)) ''x'' 12))
     < totalSize (getStats (snd (get (snd (get scenarioB ''x'' 11)) ''x'' 12)))"
    using U [THEN conjunct2, THEN conjunct1, THEN mp, OF a1] by (elim conjE)
  from hyp a1 a2 h(5) a3 n b show ?thesis by (elim conjE) (intro conjI; assumption)
qed

text \<open>
  Claim C9 as stated fails for a \<^verbatim>\<open>delete\<close> that removes nothing: after the lazy removal of
  \<^verbatim>\<open>x\<close> in scenario B, \<^verbatim>\<open>delete(y)\<close> of an absent key skips the update (it is guarded by
  \<^verbatim>\<open>if (deleted)\<close>) and \<open>totalSize\<close> is still 1 with an empty map.
\<close>

theorem failed_delete_keeps_totalSize_stale_counterexample:
  "\<not> Map_has (cache (snd (get scenarioB ''x'' 11))) ''y'' \<and>
   size_c (snd (delete (snd (get scenarioB ''x'' 11)) ''y'')) = 0 \<and>
   totalSize (getStats (snd (delete (snd (get scenarioB ''x'' 11)) ''y''))) = 1"
  by (simp add: scenarioB_def cache_eval)

subsection \<open>\<^verbatim>\<open>CacheManager.getCache\<close>\<close>

lemma getCache_registered:
  "map_of (caches m) name = Some r \<Longrightarrow> getCache m name cfg = (Some r, m)"
  by (simp add: getCache_def Map_has_def)

lemma getCache_new:
  "\<not> Map_has (caches m) name \<Longrightarrow>
     getCache m name cfg =
       (Some (length (store m)),
        m\<lparr>caches := Map_set name (length (store m)) (caches m),
          store := store m @ [new_SmartCache (mergeConfig defaultConfig cfg)]\<rparr>)"
  by (simp add: getCache_def Let_def map_of_Map_set)

lemma getCache_registers:
  "getCache m name cfg = (r1, m1) \<Longrightarrow> \<exists>r. r1 = Some r \<and> map_of (caches m1) name = Some r"
proof (cases "Map_has (caches m) name")
  case True
  then obtain r where m: "map_of (caches m) name = Some r" by (auto simp: Map_has_def)
  assume g: "getCache m name cfg = (r1, m1)"
  from getCache_registered[OF m, of cfg] g have "r1 = Some r" "m1 = m" by simp_all
  with m show ?thesis by simp
next
  case False
  moreover assume "getCache m name cfg = (r1, m1)"
  ultimately show ?thesis by (auto simp: getCache_new map_of_Map_set)
qed

lemma clearAll_loop:
  "caches (fold (\<lambda>r m'. m'\<lparr>store := (if r < length (store m') then (store m')[r := clear (store m' ! r)]
                               else store m')\<rparr>) rs m) = caches m \<and>
   length (store (fold (\<lambda>r m'. m'\<lparr>store := (if r < length (store m') then (store m')[r := clear (store m' ! r)]
                               else store m')\<rparr>) rs m)) = length (store m) \<and>
   (i < length (store m) \<longrightarrow>
    config (store (fold (\<lambda>r m'. m'\<lparr>store := (if r < length (store m') then (store m')[r := clear (store m' ! r)]
                               else store m')\<rparr>) rs m) ! i) = config (store m ! i))"
proof (induction rs arbitrary: m)
  case Nil
  then show ?case by simp
next
  case (Cons r rs)
  show ?case
    by (simp add: Cons.IH clear_def nth_list_update)
qed

lemma config_fold: "(\<And>k c'. config (f k c') = config c') \<Longrightarrow> config (fold f ks c) = config c"
  by (induction ks arbitrary: c) simp_all

lemma config_cleanup: "config (cleanup c now) = config c"
  by (simp add: cleanup_def Let_def config_fold)

lemma config_apply_cache_op: "config (apply_cache_op op c) = config c"
proof (cases op)
  case (OpHas k now)
  then show ?thesis by (simp add: has_def split: option.splits)
next
  case (OpDelete k)
  then show ?thesis by (simp add: delete_def Let_def)
next
  case (OpCleanup now)
  then show ?thesis by (simp add: config_cleanup)
qed (simp_all add: clear_def)

lemma manager_step_registry:
  assumes "op \<noteq> DestroyCache name" and "map_of (caches m) name = Some r"
  shows "map_of (caches (manager_step op m)) name = Some r"
proof (cases op)
  case (GetCache n cfg)
  then show ?thesis using assms(2)
    by (cases "Map_has (caches m) n") (auto simp: getCache_def Let_def map_of_Map_set Map_has_def)
next
  case (DestroyCache n)
  with assms show ?thesis
    by (auto simp: destroyCache_def map_of_Map_delete split: option.splits)
next
  case ClearAll
  then show ?thesis using assms(2) clearAll_loop[of "map snd (caches m)" m]
    by (simp add: clearAll_def)
next
  case (OnCache i cop)
  then show ?thesis using assms(2) by simp
qed

lemma manager_step_config:
  assumes "i < length (store m)"
  shows "i < length (store (manager_step op m)) \<and>
         config (store (manager_step op m) ! i) = config (store m ! i)"
proof (cases op)
  case (GetCache n cfg)
  then show ?thesis using assms
    by (cases "Map_has (caches m) n") (auto simp: getCache_def Let_def nth_append)
next
  case (DestroyCache n)
  then show ?thesis using assms
    by (auto simp: destroyCache_def destroy_def clear_def nth_list_update split: option.splits)
next
  case ClearAll
  then show ?thesis using assms clearAll_loop[of "map snd (caches m)" m i]
    by (simp add: clearAll_def)
next
  case (OnCache j cop)
  then show ?thesis using assms
    by (simp add: nth_list_update config_apply_cache_op)
qed

lemma manager_run:
  "DestroyCache name \<notin> set ops \<Longrightarrow> map_of (caches m) name = Some r \<Longrightarrow>
     map_of (caches (fold manager_step ops m)) name = Some r \<and>
     (r < length (store m) \<longrightarrow>
        r < length (store (fold manager_step ops m)) \<and>
        config (store (fold manager_step ops m) ! r) = config (store m ! r))"
proof (induction ops arbitrary: m)
  case Nil
  then show ?case by simp
next
  case (Cons op ops)
  from Cons.prems have ne: "op \<noteq> DestroyCache name" and rest: "DestroyCache name \<notin> set ops"
    by auto
  have reg: "map_of (caches (manager_step op m)) name = Some r"
    using manager_step_registry[OF ne Cons.prems(2)] .
  from Cons.IH[OF rest reg] manager_step_config[of r m op] show ?case by simp
qed

lemmas manager_eval =
  getCache_def destroyCache_def clearAll_def mergeConfig_def defaultConfig_def orElse_def
  destroy_def emptyManager_def smallConfig_def otherConfig_def exampleOps_def

text \<open>
  Claim C8. After \<^verbatim>\<open>getCache(name)\<close> has returned an instance, and after any sequence of
  manager and cache calls that does not contain \<^verbatim>\<open>destroyCache(name)\<close>, a second
  \<^verbatim>\<open>getCache(name)\<close> returns the same address, which the registry maps the name to, and
  leaves the manager as it was, whatever configuration it is given: the configuration
  of the instance is the one it had after the first call, and when the first call
  created the instance it is the default merged with the first call's configuration.
\<close>

theorem getCache_returns_same_instance:
  assumes "getCache m name cfg1 = (r1, m1)" and "DestroyCache name \<notin> set ops"
    and "getCache (fold manager_step ops m1) name cfg2 = (r2, m2)"
  shows "r2 = r1 \<and> r1 \<noteq> None \<and> m2 = fold manager_step ops m1 \<and>
         map_of (caches m2) name = r1 \<and>
         (\<forall>r. r1 = Some r \<and> r < length (store m1) \<longrightarrow>
            r < length (store m2) \<and> config (store m2 ! r) = config (store m1 ! r)) \<and>
         (\<not> Map_has (caches m) name \<longrightarrow>
            r1 = Some (length (store m)) \<and>
            config (store m2 ! length (store m)) = mergeConfig defaultConfig cfg1)"
proof -
  from getCache_registers[OF assms(1)] obtain r where
    r1: "r1 = Some r" and reg1: "map_of (caches m1) name = Some r" by blast
  let ?m = "fold manager_step ops m1"
  note run = manager_run[OF assms(2) reg1]
  have reg2: "map_of (caches ?m) name = Some r" using run by simp
  from getCache_registered[OF reg2, of cfg2] assms(3)
  have res: "r2 = Some r" "m2 = ?m" by simp_all
  have keep: "\<forall>r'. r1 = Some r' \<and> r' < length (store m1) \<longrightarrow>
      r' < length (store m2) \<and> config (store m2 ! r') = config (store m1 ! r')"
    using run r1 res by simp
  have fresh: "\<not> Map_has (caches m) name \<longrightarrow>
      r1 = Some (length (store m)) \<and>
      config (store m2 ! length (store m)) = mergeConfig defaultConfig cfg1"
  proof
    assume n: "\<not> Map_has (caches m) name"
    from getCache_new[OF n, of cfg1] assms(1)
    have a: "r1 = Some (length (store m))"
      and b: "store m1 = store m @ [new_SmartCache (mergeConfig defaultConfig cfg1)]"
      by auto
    from a r1 have r: "r = length (store m)" by simp
    have "config (store m1 ! r) = mergeConfig defaultConfig cfg1"
      by (simp add: b r new_SmartCache_def)
    moreover have "r < length (store m1)" by (simp add: b r)
    ultimately show "r1 = Some (length (store m)) \<and>
      config (store m2 ! length (store m)) = mergeConfig defaultConfig cfg1"
      using a run res r by simp
  qed
  from r1 res reg2 keep fresh show ?thesis by simp
qed

theorem getCache_returns_same_instance_witness:
  "DestroyCache ''x'' \<notin> set exampleOps \<and>
   fst (getCache emptyManager ''x'' (Some smallConfig)) = Some 0 \<and>
   fst (getCache (fold manager_step exampleOps (snd (getCache emptyManager ''x'' (Some smallConfig))))
          ''x'' (Some otherConfig)) = Some 0 \<and>
   config (store (snd (getCache
       (fold manager_step exampleOps (snd (getCache emptyManager ''x'' (Some smallConfig))))
          ''x'' (Some otherConfig))) ! 0) =
     \<lparr>maxSize = num 5, defaultTtl = num 300000, cleanupInterval = num 60000,
       evictionPolicy = LFU\<rparr>"
proof -
  have h: "DestroyCache ''x'' \<notin> set exampleOps" by (simp add: exampleOps_def)
  have n: "\<not> Map_has (caches emptyManager) ''x''" "length (store emptyManager) = 0"
    by (simp_all add: emptyManager_def Map_has_def)
  have c: "mergeConfig defaultConfig (Some smallConfig) =
      \<lparr>maxSize = num 5, defaultTtl = num 300000, cleanupInterval = num 60000,
       evictionPolicy = LFU\<rparr>"
    by (simp add: manager_eval)
  note T = getCache_returns_same_instance [OF surjective_pairing h surjective_pairing,
      of emptyManager "Some smallConfig" "Some otherConfig"]
  have F: "fst (getCache emptyManager ''x'' (Some smallConfig)) = Some (length (store emptyManager)) \<and>
      config (store (snd (getCache
       (fold manager_step exampleOps (snd (getCache emptyManager ''x'' (Some smallConfig))))
          ''x'' (Some otherConfig))) ! length (store emptyManager)) =
        mergeConfig defaultConfig (Some smallConfig)"
    using T n(1) by blast
  have S: "fst (getCache (fold manager_step exampleOps
        (snd (getCache emptyManager ''x'' (Some smallConfig)))) ''x'' (Some otherConfig)) =
      fst (getCache emptyManager ''x'' (Some smallConfig))"
    using T by blast
  show ?thesis using h F S by (simp only: n(2) c) simp
qed

end
